theory Spec2Isabelle
  imports Main "HOL-Library.Monad_Syntax"
begin

section \<open>Data model of \<open>DebuggerAttachEventController.ts\<close>\<close>

text \<open>
  The two enums of the source, with the constructors in the order of the source.
\<close>

datatype AttachPermission = UNKNOWN | TEMPORARY | REJECTED

datatype BinaryTransition = DEACTIVATING | IS_INACTIVE | ACTIVATING | IS_ACTIVE

text \<open>
  The interface \<open>DebuggerAttachEventState\<close>: one value per member of \<open>debuggerSubject\<close>.
  The two interest counters are JavaScript numbers that are only ever changed by
  \<open>+ 1\<close> and \<open>- 1\<close>; they are modelled as unbounded integers (they may become
  negative, the source has no guard).
\<close>

record DebuggerAttachEventState =
  permission :: AttachPermission
  attachInterest :: int
  attachState :: BinaryTransition
  webAudioEventInterest :: int
  webAudioEventState :: BinaryTransition

text \<open>
  The \<open>chrome.debugger\<close> calls made through \<open>bindChromeCallback\<close>. The two
  members of \<open>WebAudioDebuggerMethod\<close> come from a module that is not part of the file;
  they are kept as constructors of their own, next to the protocol name that a caller
  passes to \<open>sendCommand\<close>.
\<close>

datatype protocolCommand = WebAudio_enable | WebAudio_disable | Protocol string

datatype chromeCall = chrome_attach | chrome_detach | chrome_sendCommand protocolCommand

text \<open>
  \<open>chrome.runtime.lastError\<close>: an object whose \<open>message\<close> member is optional.
  Reading \<open>err.message\<close> of an error without the member gives \<open>undefined\<close>, here
  \<open>None\<close>.
\<close>

datatype LastError = LastError (message: "string option")

datatype exception = TypeError

record BinaryTransitionDescription =
  beginningState :: BinaryTransition
  intermediateState :: BinaryTransition
  successState :: BinaryTransition
  errorState :: BinaryTransition
  action :: chromeCall

text \<open>
  The two instances of \<open>BinaryTransitionSubject\<close> that the constructor creates:
  \<open>debuggerSubject.attachState\<close> and \<open>debuggerSubject.webAudioEventState\<close>.
\<close>

datatype transitionSubject = attachState_subject | webAudioEventState_subject

fun activateAction :: "transitionSubject \<Rightarrow> chromeCall" where
  "activateAction attachState_subject = chrome_attach"
| "activateAction webAudioEventState_subject = chrome_sendCommand WebAudio_enable"

fun deactivateAction :: "transitionSubject \<Rightarrow> chromeCall" where
  "deactivateAction attachState_subject = chrome_detach"
| "deactivateAction webAudioEventState_subject = chrome_sendCommand WebAudio_disable"

definition activateTransition :: "transitionSubject \<Rightarrow> BinaryTransitionDescription" where
  "activateTransition c =
     \<lparr> beginningState = IS_INACTIVE, intermediateState = ACTIVATING,
       successState = IS_ACTIVE, errorState = IS_INACTIVE, action = activateAction c \<rparr>"

definition deactivateTransition :: "transitionSubject \<Rightarrow> BinaryTransitionDescription" where
  "deactivateTransition c =
     \<lparr> beginningState = IS_ACTIVE, intermediateState = DEACTIVATING,
       successState = IS_INACTIVE, errorState = IS_INACTIVE, action = deactivateAction c \<rparr>"

text \<open>
  One call of the method \<open>sendCommand\<close> returns one observable
  \<open>attachState$.pipe(filter, take(1), exhaustMap, finalize)\<close>. The observable is
  cold: every \<open>subscribe()\<close> on it builds a chain of operators of its own, here a
  \<open>commandPipe\<close>, which is subscribed to \<open>attachState$\<close> separately. The life of one
  such chain: \<open>Waiting\<close> (subscribed to \<open>attachState$\<close>, no \<open>IS_ACTIVE\<close> seen yet),
  \<open>Running\<close> (\<open>take(1)\<close> has passed \<open>IS_ACTIVE\<close> on and left \<open>attachState$\<close>, and
  \<open>exhaustMap\<close> has subscribed to the \<open>chrome.debugger.sendCommand\<close> call),
  \<open>Completed\<close> and \<open>Errored\<close> (the call has called back), \<open>Unsubscribed\<close> (the
  subscriber has left before that). \<open>finalize\<close> has run in the last three.
\<close>

datatype phase = Waiting | Running | Completed | Errored | Unsubscribed

record commandPipe =
  command :: protocolCommand
  phase :: phase

text \<open>
  A \<open>chrome\<close> call whose callback has not run yet belongs to the subscriber that
  \<open>bindChromeCallback\<close> will complete or fail: the \<open>concat\<close> of a transition (which
  closes over its subject and its description), or the pipe of a command.
\<close>

datatype pendingCall =
    TransitionCall transitionSubject BinaryTransitionDescription
  | CommandCall nat

text \<open>
  The state of one \<open>DebuggerAttachEventController\<close>:
  \<^item> \<open>debuggerSubject\<close>: the current values of the five \<open>BehaviorSubject\<close>s;
  \<^item> \<open>previousKey\<close>: the last value that \<open>distinctUntilChanged\<close> has let through
    (\<open>None\<close> before the first one);
  \<^item> \<open>combinedState\<close>: the values that \<open>combinedState$\<close> has emitted, that is, all the
    values that \<open>distinctUntilChanged\<close> has let through, oldest first;
  \<^item> \<open>pendingCalls\<close>: the \<open>chrome\<close> calls in flight, in the order they were made;
  \<^item> \<open>commands\<close>: the observables returned by \<open>sendCommand\<close>, in call order, each
    with the method it was called with;
  \<^item> \<open>commandPipes\<close>: the subscriptions to these observables, in the order of the
    calls of \<open>subscribe()\<close>; \<open>CommandCall k\<close> is the \<open>chrome\<close> call of the \<open>k\<close>-th;
  \<^item> \<open>unhandledErrors\<close>: errors that reached a subscriber without an error handler.
\<close>

record controller =
  debuggerSubject :: DebuggerAttachEventState
  previousKey :: "DebuggerAttachEventState option"
  combinedState :: "DebuggerAttachEventState list"
  pendingCalls :: "pendingCall list"
  commands :: "protocolCommand list"
  commandPipes :: "commandPipe list"
  unhandledErrors :: "exception list"

section \<open>The subjects and the transition algorithm\<close>

text \<open>
  Every \<open>next\<close> on one of the five subjects pushes synchronously into
  \<open>combineLatest\<close>, \<open>distinctUntilChanged\<close>, \<open>share\<close> and the two policy subscribers,
  which may call \<open>next\<close> again before they return. The functions below take this
  reaction as the parameter \<open>notify\<close>; the recursion is closed by \<open>debuggerState\<close>
  further down. A reaction returns \<open>None\<close> when its recursion budget is used up.
\<close>

type_synonym reaction = "controller \<Rightarrow> controller option"

definition valueOf :: "transitionSubject \<Rightarrow> controller \<Rightarrow> BinaryTransition" where
  "valueOf c \<sigma> =
     (case c of
        attachState_subject \<Rightarrow> attachState (debuggerSubject \<sigma>)
      | webAudioEventState_subject \<Rightarrow> webAudioEventState (debuggerSubject \<sigma>))"

definition setValue :: "transitionSubject \<Rightarrow> BinaryTransition \<Rightarrow> controller \<Rightarrow> controller" where
  "setValue c v \<sigma> =
     (case c of
        attachState_subject \<Rightarrow> \<sigma>\<lparr>debuggerSubject := (debuggerSubject \<sigma>)\<lparr>attachState := v\<rparr>\<rparr>
      | webAudioEventState_subject \<Rightarrow>
          \<sigma>\<lparr>debuggerSubject := (debuggerSubject \<sigma>)\<lparr>webAudioEventState := v\<rparr>\<rparr>)"

text \<open>
  The observers of \<open>attachState$\<close> after \<open>combineLatest\<close>: the pipes of the commands
  that are waiting, in the order in which they subscribed, which is their order in
  \<open>commandPipes\<close>. \<open>filter\<close> lets only \<open>IS_ACTIVE\<close> through, \<open>take(1)\<close> closes the
  pipe's subscription to the subject at that value, and \<open>exhaustMap\<close> subscribes to the
  \<open>chrome\<close> call. Each pipe has operators of its own.
\<close>

definition waitingPipes :: "commandPipe list \<Rightarrow> nat list" where
  "waitingPipes ps = filter (\<lambda>k. phase (ps ! k) = Waiting) [0..<length ps]"

definition startPipe :: "commandPipe \<Rightarrow> commandPipe" where
  "startPipe p = (if phase p = Waiting then p\<lparr>phase := Running\<rparr> else p)"

definition commandObservers :: "BinaryTransition \<Rightarrow> controller \<Rightarrow> controller" where
  "commandObservers v \<sigma> =
     (if v = IS_ACTIVE
      then \<sigma>\<lparr>pendingCalls := pendingCalls \<sigma> @ map CommandCall (waitingPipes (commandPipes \<sigma>)),
             commandPipes := map startPipe (commandPipes \<sigma>)\<rparr>
      else \<sigma>)"

text \<open>
  \<open>BehaviorSubject.next\<close> on a \<open>BinaryTransitionSubject\<close>: store the value, then push
  it to the observers in subscription order (\<open>combineLatest\<close> first; the command pipes
  receive the value of this call after the reaction of the policies has returned).
\<close>

definition nextState :: "reaction \<Rightarrow> transitionSubject \<Rightarrow> BinaryTransition \<Rightarrow> reaction" where
  "nextState notify c v \<sigma> =
     (case c of
        attachState_subject \<Rightarrow>
          do { \<sigma>' \<leftarrow> notify (setValue c v \<sigma>); Some (commandObservers v \<sigma>') }
      | webAudioEventState_subject \<Rightarrow> notify (setValue c v \<sigma>))"

text \<open>
  The third member of the \<open>concat\<close> in \<open>transition\<close>: the \<open>defer\<close> that runs when the
  action has completed. \<open>Some v\<close> is \<open>of(v)\<close>, \<open>None\<close> is \<open>EMPTY\<close>.
\<close>

definition onComplete :: "BinaryTransitionDescription \<Rightarrow> BinaryTransition \<Rightarrow> BinaryTransition option" where
  "onComplete description v =
     (if v = intermediateState description then Some (successState description) else None)"

definition startsWith :: "string \<Rightarrow> string \<Rightarrow> bool" where
  "startsWith s p = (take (length p) s = p)"

text \<open>
  The selector of \<open>catchError\<close>, at the value \<open>v\<close> the subject holds when the action
  fails. \<open>err.message.startsWith\<close> throws a \<open>TypeError\<close> when \<open>err.message\<close> is
  \<open>undefined\<close>.
\<close>

definition onError ::
  "BinaryTransitionDescription \<Rightarrow> BinaryTransition \<Rightarrow> LastError \<Rightarrow> exception + BinaryTransition option" where
  "onError description v err =
     (case message err of
        None \<Rightarrow> Inl TypeError
      | Some m \<Rightarrow>
          if startsWith m ''Another debugger is already attached''
          then Inr (if v = intermediateState description
                    then Some (successState description) else None)
          else Inr (Some (if v = intermediateState description
                          then errorState description else beginningState description)))"

text \<open>
  \<open>transition\<close>: when the guard passes, \<open>of(intermediateState)\<close> is pushed into
  \<open>this.next\<close> at once, then the action is subscribed, which makes the \<open>chrome\<close> call.
\<close>

definition transition ::
  "reaction \<Rightarrow> transitionSubject \<Rightarrow> BinaryTransitionDescription \<Rightarrow> reaction" where
  "transition notify c description \<sigma> =
     (if valueOf c \<sigma> = beginningState description
      then do {
        \<sigma>' \<leftarrow> nextState notify c (intermediateState description) \<sigma>;
        Some (\<sigma>'\<lparr>pendingCalls := pendingCalls \<sigma>' @ [TransitionCall c description]\<rparr>)
      }
      else Some \<sigma>)"

definition activate :: "reaction \<Rightarrow> transitionSubject \<Rightarrow> reaction" where
  "activate notify c = transition notify c (activateTransition c)"

definition deactivate :: "reaction \<Rightarrow> transitionSubject \<Rightarrow> reaction" where
  "deactivate notify c = transition notify c (deactivateTransition c)"

text \<open>
  The callback of the action of a transition: \<open>bindChromeCallback\<close> completes the
  action when \<open>chrome.runtime.lastError\<close> is unset and fails it with that error otherwise.
  An error thrown by the selector of \<open>catchError\<close> goes to the subscriber
  \<open>{next: this.next.bind(this)}\<close>, which has no error handler.
\<close>

definition settleTransition ::
  "reaction \<Rightarrow> transitionSubject \<Rightarrow> BinaryTransitionDescription \<Rightarrow> LastError option \<Rightarrow> reaction" where
  "settleTransition notify c description lastError \<sigma> =
     (case lastError of
        None \<Rightarrow>
          (case onComplete description (valueOf c \<sigma>) of
             Some v \<Rightarrow> nextState notify c v \<sigma>
           | None \<Rightarrow> Some \<sigma>)
      | Some err \<Rightarrow>
          (case onError description (valueOf c \<sigma>) err of
             Inl e \<Rightarrow> Some (\<sigma>\<lparr>unhandledErrors := unhandledErrors \<sigma> @ [e]\<rparr>)
           | Inr (Some v) \<Rightarrow> nextState notify c v \<sigma>
           | Inr None \<Rightarrow> Some \<sigma>))"

section \<open>Permission and interest\<close>

definition nextPermission :: "reaction \<Rightarrow> AttachPermission \<Rightarrow> reaction" where
  "nextPermission notify v \<sigma> = notify (\<sigma>\<lparr>debuggerSubject := (debuggerSubject \<sigma>)\<lparr>permission := v\<rparr>\<rparr>)"

definition grantTemporary :: "reaction \<Rightarrow> reaction" where
  "grantTemporary notify \<sigma> =
     (if permission (debuggerSubject \<sigma>) = UNKNOWN then nextPermission notify TEMPORARY \<sigma>
      else Some \<sigma>)"

definition reject :: "reaction \<Rightarrow> reaction" where
  "reject notify \<sigma> =
     (if permission (debuggerSubject \<sigma>) \<noteq> REJECTED then nextPermission notify REJECTED \<sigma>
      else Some \<sigma>)"

datatype counterSubject = attachInterest_subject | webAudioEventInterest_subject

definition counterValue :: "counterSubject \<Rightarrow> controller \<Rightarrow> int" where
  "counterValue c \<sigma> =
     (case c of
        attachInterest_subject \<Rightarrow> attachInterest (debuggerSubject \<sigma>)
      | webAudioEventInterest_subject \<Rightarrow> webAudioEventInterest (debuggerSubject \<sigma>))"

definition nextCounter :: "reaction \<Rightarrow> counterSubject \<Rightarrow> int \<Rightarrow> reaction" where
  "nextCounter notify c v \<sigma> =
     (case c of
        attachInterest_subject \<Rightarrow>
          notify (\<sigma>\<lparr>debuggerSubject := (debuggerSubject \<sigma>)\<lparr>attachInterest := v\<rparr>\<rparr>)
      | webAudioEventInterest_subject \<Rightarrow>
          notify (\<sigma>\<lparr>debuggerSubject := (debuggerSubject \<sigma>)\<lparr>webAudioEventInterest := v\<rparr>\<rparr>))"

definition increment :: "reaction \<Rightarrow> counterSubject \<Rightarrow> reaction" where
  "increment notify c \<sigma> = nextCounter notify c (counterValue c \<sigma> + 1) \<sigma>"

definition decrement :: "reaction \<Rightarrow> counterSubject \<Rightarrow> reaction" where
  "decrement notify c \<sigma> = nextCounter notify c (counterValue c \<sigma> - 1) \<sigma>"

section \<open>The policies of the constructor\<close>

text \<open>The first subscriber of \<open>debuggerState$\<close>: attachment to \<open>chrome.debugger\<close>.\<close>

definition attachPolicy :: "reaction \<Rightarrow> DebuggerAttachEventState \<Rightarrow> reaction" where
  "attachPolicy notify state \<sigma> =
     (if permission state = TEMPORARY \<and> attachInterest state > 0
      then activate notify attachState_subject \<sigma>
      else deactivate notify attachState_subject \<sigma>)"

text \<open>The second subscriber of \<open>debuggerState$\<close>: reception of web audio events.\<close>

definition webAudioEventPolicy :: "reaction \<Rightarrow> DebuggerAttachEventState \<Rightarrow> reaction" where
  "webAudioEventPolicy notify state \<sigma> =
     (if attachState state = IS_ACTIVE \<and> webAudioEventInterest state > 0
      then activate notify webAudioEventState_subject \<sigma>
      else if attachState state = IS_ACTIVE
      then deactivate notify webAudioEventState_subject \<sigma>
      else nextState notify webAudioEventState_subject IS_INACTIVE \<sigma>)"

text \<open>
  One push of \<open>combineLatest(debuggerSubject)\<close> through \<open>distinctUntilChanged\<close> and
  \<open>share\<close>: the combined value is read from the subjects at the push, compared with the
  previous key member by member, and, when it differs, emitted: it becomes the previous
  key and is handed to the two subscribers in subscription order. A subscriber gets the
  value of this push also when an earlier subscriber has changed a subject in between.
\<close>

definition pushCombined :: "reaction \<Rightarrow> reaction" where
  "pushCombined notify \<sigma> =
     (let state = debuggerSubject \<sigma> in
      if previousKey \<sigma> = Some state then Some \<sigma>
      else do {
        \<sigma>1 \<leftarrow> attachPolicy notify state
                (\<sigma>\<lparr>previousKey := Some state, combinedState := combinedState \<sigma> @ [state]\<rparr>);
        webAudioEventPolicy notify state \<sigma>1
      })"

text \<open>
  \<open>debuggerState n\<close> is the reaction with at most \<open>n\<close> nested pushes.
\<close>

primrec debuggerState :: "nat \<Rightarrow> reaction" where
  "debuggerState 0 = (\<lambda>\<sigma>. None)"
| "debuggerState (Suc n) = pushCombined (debuggerState n)"

text \<open>The subscriber of \<open>onDebuggerDetach$\<close>.\<close>

definition onDebuggerDetach :: "reaction \<Rightarrow> string \<Rightarrow> reaction" where
  "onDebuggerDetach notify reason \<sigma> =
     do {
       \<sigma>1 \<leftarrow> (if reason = ''canceled_by_user'' then reject notify \<sigma> else Some \<sigma>);
       nextState notify attachState_subject IS_INACTIVE \<sigma>1
     }"

section \<open>Commands\<close>

text \<open>
  The method \<open>sendCommand\<close>: the increment happens in the call; the observable that is
  returned has done nothing yet.
\<close>

definition sendCommand :: "reaction \<Rightarrow> protocolCommand \<Rightarrow> reaction" where
  "sendCommand notify m \<sigma> =
     do {
       \<sigma>1 \<leftarrow> increment notify attachInterest_subject \<sigma>;
       Some (\<sigma>1\<lparr>commands := commands \<sigma>1 @ [m]\<rparr>)
     }"

text \<open>
  \<open>subscribe()\<close> on the \<open>k\<close>-th returned observable builds a new pipe and subscribes it
  to the \<open>BehaviorSubject\<close> \<open>attachState$\<close>, behind the observers that are there
  already. The subject replays its current value to the new subscriber: when that value
  is \<open>IS_ACTIVE\<close> the \<open>chrome\<close> call is made at once. Nothing prevents a second
  \<open>subscribe()\<close> on the same observable.
\<close>

definition subscribePipe :: "nat \<Rightarrow> controller \<Rightarrow> controller" where
  "subscribePipe k \<sigma> =
     (if k < length (commands \<sigma>)
      then if attachState (debuggerSubject \<sigma>) = IS_ACTIVE
           then \<sigma>\<lparr>commandPipes := commandPipes \<sigma> @ [\<lparr>command = commands \<sigma> ! k, phase = Running\<rparr>],
                  pendingCalls := pendingCalls \<sigma> @ [CommandCall (length (commandPipes \<sigma>))]\<rparr>
           else \<sigma>\<lparr>commandPipes := commandPipes \<sigma> @ [\<lparr>command = commands \<sigma> ! k, phase = Waiting\<rparr>]\<rparr>
      else \<sigma>)"

text \<open>
  The callback of the \<open>chrome\<close> call of a command: the pipe completes or fails, and
  \<open>finalize\<close> decrements the interest in both cases. The callback of a call whose
  subscriber has left finds the subscriber closed and does nothing.
\<close>

definition settleCommand :: "reaction \<Rightarrow> nat \<Rightarrow> LastError option \<Rightarrow> reaction" where
  "settleCommand notify k lastError \<sigma> =
     (if k < length (commandPipes \<sigma>) \<and> phase (commandPipes \<sigma> ! k) = Running
      then decrement notify attachInterest_subject
             (\<sigma>\<lparr>commandPipes := (commandPipes \<sigma>)[k := (commandPipes \<sigma> ! k)
                   \<lparr>phase := (case lastError of None \<Rightarrow> Completed | Some err \<Rightarrow> Errored)\<rparr>]\<rparr>)
      else Some \<sigma>)"

text \<open>
  \<open>unsubscribe()\<close> on the subscription of a pipe that has not ended: the pipe leaves
  \<open>attachState$\<close> if it is still waiting, and \<open>finalize\<close> decrements the interest.
  \<open>bindChromeCallback\<close> has no teardown: a \<open>chrome\<close> call that was made stays in
  flight. On a pipe that has ended \<open>unsubscribe()\<close> does nothing.
\<close>

definition unsubscribePipe :: "reaction \<Rightarrow> nat \<Rightarrow> reaction" where
  "unsubscribePipe notify k \<sigma> =
     (if k < length (commandPipes \<sigma>) \<and>
         (phase (commandPipes \<sigma> ! k) = Waiting \<or> phase (commandPipes \<sigma> ! k) = Running)
      then decrement notify attachInterest_subject
             (\<sigma>\<lparr>commandPipes := (commandPipes \<sigma>)[k := (commandPipes \<sigma> ! k)\<lparr>phase := Unsubscribed\<rparr>]\<rparr>)
      else Some \<sigma>)"

section \<open>The controller as a transition system\<close>

text \<open>
  What can happen to a controller from outside: the calls of its public members, a
  \<open>chrome.debugger.onDetach\<close> event, \<open>subscribe()\<close> on the \<open>k\<close>-th observable that
  \<open>sendCommand\<close> has returned, \<open>unsubscribe()\<close> on the \<open>k\<close>-th subscription so
  made, and the callback of a \<open>chrome\<close> call in flight (\<open>Callback i e\<close>: the \<open>i\<close>-th
  pending call calls back with \<open>chrome.runtime.lastError = e\<close>).
\<close>

datatype event =
    GrantTemporary
  | Reject
  | Increment counterSubject
  | Decrement counterSubject
  | OnDetach string
  | SendCommand protocolCommand
  | Subscribe nat
  | Unsubscribe nat
  | Callback nat "LastError option"

definition removeAt :: "nat \<Rightarrow> 'a list \<Rightarrow> 'a list" where
  "removeAt i xs = take i xs @ drop (Suc i) xs"

definition callback :: "reaction \<Rightarrow> nat \<Rightarrow> LastError option \<Rightarrow> reaction" where
  "callback notify i lastError \<sigma> =
     (if i < length (pendingCalls \<sigma>)
      then (case pendingCalls \<sigma> ! i of
              TransitionCall c description \<Rightarrow>
                settleTransition notify c description lastError
                  (\<sigma>\<lparr>pendingCalls := removeAt i (pendingCalls \<sigma>)\<rparr>)
            | CommandCall k \<Rightarrow>
                settleCommand notify k lastError
                  (\<sigma>\<lparr>pendingCalls := removeAt i (pendingCalls \<sigma>)\<rparr>))
      else Some \<sigma>)"

fun step :: "nat \<Rightarrow> event \<Rightarrow> controller \<Rightarrow> controller option" where
  "step n GrantTemporary \<sigma> = grantTemporary (debuggerState n) \<sigma>"
| "step n Reject \<sigma> = reject (debuggerState n) \<sigma>"
| "step n (Increment c) \<sigma> = increment (debuggerState n) c \<sigma>"
| "step n (Decrement c) \<sigma> = decrement (debuggerState n) c \<sigma>"
| "step n (OnDetach reason) \<sigma> = onDebuggerDetach (debuggerState n) reason \<sigma>"
| "step n (SendCommand m) \<sigma> = sendCommand (debuggerState n) m \<sigma>"
| "step n (Subscribe k) \<sigma> = Some (subscribePipe k \<sigma>)"
| "step n (Unsubscribe k) \<sigma> = unsubscribePipe (debuggerState n) k \<sigma>"
| "step n (Callback i lastError) \<sigma> = callback (debuggerState n) i lastError \<sigma>"

fun run :: "nat \<Rightarrow> event list \<Rightarrow> controller \<Rightarrow> controller option" where
  "run n [] \<sigma> = Some \<sigma>"
| "run n (e # es) \<sigma> = do { \<sigma>' \<leftarrow> step n e \<sigma>; run n es \<sigma>' }"

text \<open>
  The constructor: the subjects get their initial values; the first
  \<open>debuggerState$.subscribe\<close> connects \<open>share\<close>, so the first combined value is emitted
  and reaches the attachment policy alone (the second subscriber is added after that
  push).
\<close>

definition fresh :: controller where
  "fresh =
     \<lparr> debuggerSubject =
         \<lparr> permission = UNKNOWN, attachInterest = 0, attachState = IS_INACTIVE,
           webAudioEventInterest = 0, webAudioEventState = IS_INACTIVE \<rparr>,
       previousKey = None, combinedState = [], pendingCalls = [], commands = [],
       commandPipes = [], unhandledErrors = [] \<rparr>"

definition constructor :: "nat \<Rightarrow> controller option" where
  "constructor n =
     (let state = debuggerSubject fresh
      in attachPolicy (debuggerState n) state
           (fresh\<lparr>previousKey := Some state, combinedState := [state]\<rparr>))"

definition initial :: controller where
  "initial = fresh\<lparr>previousKey := Some (debuggerSubject fresh),
                   combinedState := [debuggerSubject fresh]\<rparr>"

definition afterEvents :: "nat \<Rightarrow> event list \<Rightarrow> controller option" where
  "afterEvents n es = do { \<sigma> \<leftarrow> constructor n; run n es \<sigma> }"

section \<open>Notions used in the statements\<close>

text \<open>
  \<open>callsOf\<close> lists the pipes whose command call is in flight, in the order of the calls;
  \<open>commandCalls\<close> lists the methods of these \<open>chrome.debugger.sendCommand\<close> calls.
  \<open>combination\<close> is the pair of the two transition subjects in a combined value.
\<close>

fun callsOf :: "pendingCall list \<Rightarrow> nat list" where
  "callsOf [] = []"
| "callsOf (CommandCall k # cs) = k # callsOf cs"
| "callsOf (TransitionCall c d # cs) = callsOf cs"

definition commandCalls :: "controller \<Rightarrow> protocolCommand list" where
  "commandCalls \<sigma> = map (\<lambda>k. command (commandPipes \<sigma> ! k)) (callsOf (pendingCalls \<sigma>))"

definition combination :: "DebuggerAttachEventState \<Rightarrow> BinaryTransition \<times> BinaryTransition" where
  "combination state = (attachState state, webAudioEventState state)"

text \<open>
  What a reaction leaves alone. The policies only ever write the two transition
  subjects, and the values they write into \<open>attachState$\<close> are never \<open>IS_ACTIVE\<close>: a
  reaction changes neither the permission, nor an interest counter, nor a command or
  one of its pipes, and the calls it makes are calls of transitions.
\<close>

definition unchanged :: "controller \<Rightarrow> controller \<Rightarrow> bool" where
  "unchanged \<sigma> \<tau> \<longleftrightarrow>
     permission (debuggerSubject \<tau>) = permission (debuggerSubject \<sigma>) \<and>
     attachInterest (debuggerSubject \<tau>) = attachInterest (debuggerSubject \<sigma>) \<and>
     webAudioEventInterest (debuggerSubject \<tau>) = webAudioEventInterest (debuggerSubject \<sigma>) \<and>
     commands \<tau> = commands \<sigma> \<and>
     commandPipes \<tau> = commandPipes \<sigma> \<and>
     callsOf (pendingCalls \<tau>) = callsOf (pendingCalls \<sigma>) \<and>
     unhandledErrors \<tau> = unhandledErrors \<sigma>"

definition keeps :: "reaction \<Rightarrow> bool" where
  "keeps notify \<longleftrightarrow> (\<forall>\<sigma> \<tau>. notify \<sigma> = Some \<tau> \<longrightarrow> unchanged \<sigma> \<tau>)"

text \<open>
  A reaction is \<open>total\<close> when it returns on every controller, and \<open>extends\<close> another
  one when it returns the same result wherever the other returns.
\<close>

definition total :: "reaction \<Rightarrow> bool" where
  "total notify \<longleftrightarrow> (\<forall>\<sigma>. \<exists>\<tau>. notify \<sigma> = Some \<tau>)"

definition extends :: "reaction \<Rightarrow> reaction \<Rightarrow> bool" where
  "extends notify notify' \<longleftrightarrow> (\<forall>\<sigma> \<tau>. notify \<sigma> = Some \<tau> \<longrightarrow> notify' \<sigma> = Some \<tau>)"

text \<open>
  Where the guarded call of the attachment policy puts \<open>attachState$\<close>, given the
  combined value it is called with; \<open>attachSettles\<close> says that a reaction leaves the
  attachment there when the pushed value differs from the previous key, and where it
  was otherwise.
\<close>

definition attachOutcome :: "DebuggerAttachEventState \<Rightarrow> BinaryTransition" where
  "attachOutcome s =
     (if permission s = TEMPORARY \<and> attachInterest s > 0
      then (if attachState s = IS_INACTIVE then ACTIVATING else attachState s)
      else (if attachState s = IS_ACTIVE then DEACTIVATING else attachState s))"

definition attachSettles :: "reaction \<Rightarrow> bool" where
  "attachSettles notify \<longleftrightarrow>
     (\<forall>\<sigma> \<tau>. notify \<sigma> = Some \<tau> \<longrightarrow>
        attachState (debuggerSubject \<tau>) =
          (if previousKey \<sigma> = Some (debuggerSubject \<sigma>) then attachState (debuggerSubject \<sigma>)
           else attachOutcome (debuggerSubject \<sigma>)))"

text \<open>
  A controller is \<open>settled\<close> when the last combined value that was let through is the
  current one and the event subject is inactive unless the attachment is active. A
  controller is \<open>admissible\<close> for a push when it is settled or the push will be let
  through; \<open>settles\<close> says that a reaction takes admissible controllers to settled ones.
\<close>

definition settled :: "controller \<Rightarrow> bool" where
  "settled \<sigma> \<longleftrightarrow>
     previousKey \<sigma> = Some (debuggerSubject \<sigma>) \<and>
     (attachState (debuggerSubject \<sigma>) = IS_ACTIVE \<or>
      webAudioEventState (debuggerSubject \<sigma>) = IS_INACTIVE)"

definition admissible :: "controller \<Rightarrow> bool" where
  "admissible \<sigma> \<longleftrightarrow> (previousKey \<sigma> = Some (debuggerSubject \<sigma>) \<longrightarrow> settled \<sigma>)"

definition settles :: "reaction \<Rightarrow> bool" where
  "settles notify \<longleftrightarrow> (\<forall>\<sigma> \<tau>. admissible \<sigma> \<longrightarrow> notify \<sigma> = Some \<tau> \<longrightarrow> settled \<tau>)"

text \<open>
  The interest that the callers of \<open>attachInterest$.increment()\<close> and
  \<open>attachInterest$.decrement()\<close> hold themselves after a sequence of events, the
  commands issued by the calls of \<open>sendCommand\<close> in a sequence of events, the number of
  pipes that have ended (\<open>finalize\<close> has run), and the attach interest that is not
  accounted for by the commands and their pipes.
\<close>

fun callerDelta :: "event \<Rightarrow> int" where
  "callerDelta (Increment attachInterest_subject) = 1"
| "callerDelta (Decrement attachInterest_subject) = - 1"
| "callerDelta e = 0"

definition callerBalance :: "event list \<Rightarrow> int" where
  "callerBalance es = sum_list (map callerDelta es)"

fun issuedBy :: "event \<Rightarrow> protocolCommand list" where
  "issuedBy (SendCommand m) = [m]"
| "issuedBy e = []"

definition issued :: "event list \<Rightarrow> protocolCommand list" where
  "issued es = concat (map issuedBy es)"

definition ended :: "commandPipe \<Rightarrow> bool" where
  "ended p \<longleftrightarrow> phase p = Completed \<or> phase p = Errored \<or> phase p = Unsubscribed"

definition endedPipes :: "commandPipe list \<Rightarrow> nat" where
  "endedPipes ps = length (filter ended ps)"

definition commandInterest :: "controller \<Rightarrow> int" where
  "commandInterest \<sigma> =
     attachInterest (debuggerSubject \<sigma>) - int (length (commands \<sigma>)) + int (endedPipes (commandPipes \<sigma>))"

text \<open>
  \<open>callsMatchPipes\<close>: every pipe that is \<open>Running\<close> has exactly one call in flight, and
  every command call in flight belongs to a pipe that is not waiting any more.
\<close>

definition runningPipes :: "commandPipe list \<Rightarrow> nat set" where
  "runningPipes ps = {k. k < length ps \<and> phase (ps ! k) = Running}"

definition startedPipes :: "commandPipe list \<Rightarrow> nat set" where
  "startedPipes ps = {k. k < length ps \<and> phase (ps ! k) \<noteq> Waiting}"

definition callsMatchPipes :: "controller \<Rightarrow> bool" where
  "callsMatchPipes \<sigma> \<longleftrightarrow>
     distinct (callsOf (pendingCalls \<sigma>)) \<and>
     runningPipes (commandPipes \<sigma>) \<subseteq> set (callsOf (pendingCalls \<sigma>)) \<and>
     set (callsOf (pendingCalls \<sigma>)) \<subseteq> startedPipes (commandPipes \<sigma>)"

section \<open>What a reaction leaves alone\<close>

lemmas reaction_defs =
  pushCombined_def attachPolicy_def webAudioEventPolicy_def activate_def deactivate_def
  transition_def nextState_def setValue_def valueOf_def commandObservers_def
  activateTransition_def deactivateTransition_def Let_def

lemma constructor_initial: "constructor n = Some initial"
  by (simp add: constructor_def initial_def fresh_def attachPolicy_def deactivate_def Let_def
      transition_def valueOf_def deactivateTransition_def)

lemma callsOf_append [simp]: "callsOf (cs @ cs') = callsOf cs @ callsOf cs'"
  by (induction cs rule: callsOf.induct) simp_all

lemma callsOf_CommandCall [simp]: "callsOf (map CommandCall ks) = ks"
  by (induction ks) simp_all

lemma unchanged_refl: "unchanged \<sigma> \<sigma>"
  by (simp add: unchanged_def)

lemma unchanged_trans: "unchanged \<sigma> \<tau> \<Longrightarrow> unchanged \<tau> \<upsilon> \<Longrightarrow> unchanged \<sigma> \<upsilon>"
  by (simp add: unchanged_def)

lemma unchanged_setValue: "unchanged \<sigma> (setValue c v \<sigma>)"
  by (cases c) (simp_all add: unchanged_def setValue_def)

lemma commandObservers_other: "v \<noteq> IS_ACTIVE \<Longrightarrow> commandObservers v \<sigma> = \<sigma>"
  by (simp add: commandObservers_def)

lemma keeps_nextState:
  assumes "keeps notify" and "nextState notify c v \<sigma> = Some \<tau>"
    and "c = attachState_subject \<Longrightarrow> v \<noteq> IS_ACTIVE"
  shows "unchanged \<sigma> \<tau>"
proof (cases c)
  case attachState_subject
  with assms(2) obtain \<sigma>' where s: "notify (setValue c v \<sigma>) = Some \<sigma>'"
    and t: "\<tau> = commandObservers v \<sigma>'"
    by (auto simp: nextState_def split: bind_splits)
  from assms(1) s have "unchanged (setValue c v \<sigma>) \<sigma>'" by (simp add: keeps_def)
  with unchanged_setValue have "unchanged \<sigma> \<sigma>'" by (rule unchanged_trans)
  with t assms(3) attachState_subject show ?thesis by (simp add: commandObservers_other)
next
  case webAudioEventState_subject
  with assms(2) have s: "notify (setValue c v \<sigma>) = Some \<tau>"
    by (simp add: nextState_def)
  from assms(1) s have "unchanged (setValue c v \<sigma>) \<tau>" by (simp add: keeps_def)
  with unchanged_setValue show ?thesis by (rule unchanged_trans)
qed

lemma keeps_transition:
  assumes "keeps notify" and "transition notify c d \<sigma> = Some \<tau>"
    and "intermediateState d \<noteq> IS_ACTIVE"
  shows "unchanged \<sigma> \<tau>"
proof (cases "valueOf c \<sigma> = beginningState d")
  case True
  with assms(2) obtain \<sigma>' where s: "nextState notify c (intermediateState d) \<sigma> = Some \<sigma>'"
    and t: "\<tau> = \<sigma>'\<lparr>pendingCalls := pendingCalls \<sigma>' @ [TransitionCall c d]\<rparr>"
    by (auto simp: transition_def split: bind_splits)
  from assms(1) s assms(3) have "unchanged \<sigma> \<sigma>'" by (rule keeps_nextState)
  then show ?thesis unfolding t by (simp add: unchanged_def)
next
  case False
  with assms(2) show ?thesis by (simp add: transition_def unchanged_refl)
qed

lemma keeps_activate:
  assumes "keeps notify" and "activate notify c \<sigma> = Some \<tau>"
  shows "unchanged \<sigma> \<tau>"
  using keeps_transition[OF assms(1) assms(2)[unfolded activate_def]]
  by (simp add: activateTransition_def)

lemma keeps_deactivate:
  assumes "keeps notify" and "deactivate notify c \<sigma> = Some \<tau>"
  shows "unchanged \<sigma> \<tau>"
  using keeps_transition[OF assms(1) assms(2)[unfolded deactivate_def]]
  by (simp add: deactivateTransition_def)

lemma keeps_attachPolicy:
  "keeps notify \<Longrightarrow> attachPolicy notify s \<sigma> = Some \<tau> \<Longrightarrow> unchanged \<sigma> \<tau>"
  by (auto simp: attachPolicy_def dest: keeps_activate keeps_deactivate split: if_splits)

lemma keeps_webAudioEventPolicy:
  "keeps notify \<Longrightarrow> webAudioEventPolicy notify s \<sigma> = Some \<tau> \<Longrightarrow> unchanged \<sigma> \<tau>"
  by (auto simp: webAudioEventPolicy_def dest: keeps_activate keeps_deactivate keeps_nextState
      split: if_splits)

lemma keeps_pushCombined:
  assumes "keeps notify" shows "keeps (pushCombined notify)"
  unfolding keeps_def
proof (intro allI impI)
  fix \<sigma> \<tau> assume p: "pushCombined notify \<sigma> = Some \<tau>"
  let ?\<sigma>0 = "\<sigma>\<lparr>previousKey := Some (debuggerSubject \<sigma>),
                combinedState := combinedState \<sigma> @ [debuggerSubject \<sigma>]\<rparr>"
  show "unchanged \<sigma> \<tau>"
  proof (cases "previousKey \<sigma> = Some (debuggerSubject \<sigma>)")
    case True
    with p show ?thesis by (simp add: pushCombined_def unchanged_refl)
  next
    case False
    with p obtain \<sigma>1 where a: "attachPolicy notify (debuggerSubject \<sigma>) ?\<sigma>0 = Some \<sigma>1"
      and w: "webAudioEventPolicy notify (debuggerSubject \<sigma>) \<sigma>1 = Some \<tau>"
      by (auto simp: pushCombined_def Let_def split: bind_splits)
    have "unchanged \<sigma> ?\<sigma>0" by (simp add: unchanged_def)
    moreover have "unchanged ?\<sigma>0 \<sigma>1" using assms a by (rule keeps_attachPolicy)
    moreover have "unchanged \<sigma>1 \<tau>" using assms w by (rule keeps_webAudioEventPolicy)
    ultimately show ?thesis by (blast intro: unchanged_trans)
  qed
qed

lemma keeps_debuggerState: "keeps (debuggerState n)"
proof (induction n)
  case 0
  show ?case by (simp add: keeps_def)
next
  case (Suc n)
  then show ?case by (simp add: keeps_pushCombined)
qed

lemma debuggerState_unchanged: "debuggerState n \<sigma> = Some \<tau> \<Longrightarrow> unchanged \<sigma> \<tau>"
  using keeps_debuggerState[of n] by (simp add: keeps_def)

section \<open>The recursion budget\<close>

text \<open>
  Four nested pushes are enough on every controller: the attachment policy moves
  \<open>attachState$\<close> at most once per reaction (into an intermediate state, where both
  of its calls are guarded off), and the event policy then needs at most two more
  pushes to bring \<open>webAudioEventState$\<close> to rest.
\<close>

lemma debuggerState_returns:
  "\<exists>\<tau>. debuggerState (Suc (Suc (Suc (Suc n)))) \<sigma> = Some \<tau>"
proof (cases \<sigma>)
  case (fields ds prev emitted pend cmds pipes errs)
  show ?thesis
  proof (cases ds)
    case (fields p ai as si ss)
    show ?thesis
      unfolding \<open>\<sigma> = _\<close> \<open>ds = _\<close>
      by (cases as; cases ss; cases p; cases "0 < ai"; cases "0 < si";
          cases "prev = Some \<lparr>permission = p, attachInterest = ai, attachState = as,
               webAudioEventInterest = si, webAudioEventState = ss\<rparr>";
          simp add: reaction_defs)
  qed
qed

lemma total_debuggerState: "4 \<le> n \<Longrightarrow> total (debuggerState n)"
proof -
  assume "4 \<le> n"
  then obtain k where "n = Suc (Suc (Suc (Suc k)))"
    by (auto simp: le_iff_add eval_nat_numeral)
  then show ?thesis using debuggerState_returns[of k] by (simp add: total_def)
qed

lemma extends_nextState:
  "extends notify notify' \<Longrightarrow> nextState notify c v \<sigma> = Some \<tau>
    \<Longrightarrow> nextState notify' c v \<sigma> = Some \<tau>"
  by (cases c) (auto simp: nextState_def extends_def split: bind_splits)

lemma extends_transition:
  "extends notify notify' \<Longrightarrow> transition notify c d \<sigma> = Some \<tau>
    \<Longrightarrow> transition notify' c d \<sigma> = Some \<tau>"
  by (auto simp: transition_def split: if_splits bind_splits dest: extends_nextState)

lemma extends_attachPolicy:
  "extends notify notify' \<Longrightarrow> attachPolicy notify s \<sigma> = Some \<tau>
    \<Longrightarrow> attachPolicy notify' s \<sigma> = Some \<tau>"
  by (auto simp: attachPolicy_def activate_def deactivate_def split: if_splits
      dest: extends_transition)

lemma extends_webAudioEventPolicy:
  "extends notify notify' \<Longrightarrow> webAudioEventPolicy notify s \<sigma> = Some \<tau>
    \<Longrightarrow> webAudioEventPolicy notify' s \<sigma> = Some \<tau>"
  by (auto simp: webAudioEventPolicy_def activate_def deactivate_def split: if_splits
      dest: extends_transition extends_nextState)

lemma extends_pushCombined:
  assumes "extends notify notify'"
  shows "extends (pushCombined notify) (pushCombined notify')"
  unfolding extends_def
proof (intro allI impI)
  fix \<sigma> \<tau> assume p: "pushCombined notify \<sigma> = Some \<tau>"
  let ?\<sigma>0 = "\<sigma>\<lparr>previousKey := Some (debuggerSubject \<sigma>),
                combinedState := combinedState \<sigma> @ [debuggerSubject \<sigma>]\<rparr>"
  show "pushCombined notify' \<sigma> = Some \<tau>"
  proof (cases "previousKey \<sigma> = Some (debuggerSubject \<sigma>)")
    case True
    with p show ?thesis by (simp add: pushCombined_def)
  next
    case False
    with p obtain \<sigma>1 where a: "attachPolicy notify (debuggerSubject \<sigma>) ?\<sigma>0 = Some \<sigma>1"
      and w: "webAudioEventPolicy notify (debuggerSubject \<sigma>) \<sigma>1 = Some \<tau>"
      by (auto simp: pushCombined_def Let_def split: bind_splits)
    from extends_attachPolicy[OF assms a] extends_webAudioEventPolicy[OF assms w] False
    show ?thesis by (simp add: pushCombined_def Let_def)
  qed
qed

lemma extends_Suc: "extends (debuggerState n) (debuggerState (Suc n))"
proof (induction n)
  case 0
  show ?case by (simp add: extends_def)
next
  case (Suc n)
  then have "extends (pushCombined (debuggerState n)) (pushCombined (debuggerState (Suc n)))"
    by (rule extends_pushCombined)
  then show ?case by simp
qed

lemma debuggerState_more:
  "debuggerState n \<sigma> = Some \<tau> \<Longrightarrow> debuggerState (n + k) \<sigma> = Some \<tau>"
proof (induction k)
  case 0
  then show ?case by simp
next
  case (Suc k)
  then have "debuggerState (n + k) \<sigma> = Some \<tau>" by simp
  with extends_Suc[of "n + k"] show ?case by (simp add: extends_def)
qed

text \<open>From four pushes on, the budget makes no difference to the result.\<close>

lemma debuggerState_enough: "4 \<le> n \<Longrightarrow> debuggerState n = debuggerState 4"
proof
  fix \<sigma> assume "4 \<le> n"
  then obtain k where n: "n = 4 + k" by (auto simp: le_iff_add)
  obtain \<tau> where t: "debuggerState 4 \<sigma> = Some \<tau>"
    using debuggerState_returns[of 0 \<sigma>] by (auto simp: eval_nat_numeral)
  from debuggerState_more[OF t, of k] n t show "debuggerState n \<sigma> = debuggerState 4 \<sigma>" by simp
qed

section \<open>Frames of the public operations\<close>

lemma nextState_frame:
  assumes "nextState (debuggerState n) c v \<sigma> = Some \<tau>"
  shows "permission (debuggerSubject \<tau>) = permission (debuggerSubject \<sigma>)"
    and "attachInterest (debuggerSubject \<tau>) = attachInterest (debuggerSubject \<sigma>)"
    and "webAudioEventInterest (debuggerSubject \<tau>) = webAudioEventInterest (debuggerSubject \<sigma>)"
    and "unhandledErrors \<tau> = unhandledErrors \<sigma>"
    and "commandPipes \<tau> =
          (if c = attachState_subject \<and> v = IS_ACTIVE then map startPipe (commandPipes \<sigma>)
           else commandPipes \<sigma>)"
    and "callsOf (pendingCalls \<tau>) =
          (if c = attachState_subject \<and> v = IS_ACTIVE
           then callsOf (pendingCalls \<sigma>) @ waitingPipes (commandPipes \<sigma>)
           else callsOf (pendingCalls \<sigma>))"
    and "commands \<tau> = commands \<sigma>"
proof -
  obtain \<sigma>' where s: "debuggerState n (setValue c v \<sigma>) = Some \<sigma>'"
    and t: "\<tau> = (if c = attachState_subject then commandObservers v \<sigma>' else \<sigma>')"
    using assms by (cases c) (auto simp: nextState_def split: bind_splits)
  from s have "unchanged (setValue c v \<sigma>) \<sigma>'" by (rule debuggerState_unchanged)
  with unchanged_setValue have u: "unchanged \<sigma> \<sigma>'" by (rule unchanged_trans)
  from u t show "permission (debuggerSubject \<tau>) = permission (debuggerSubject \<sigma>)"
    by (simp add: unchanged_def commandObservers_def)
  from u t show "attachInterest (debuggerSubject \<tau>) = attachInterest (debuggerSubject \<sigma>)"
    by (simp add: unchanged_def commandObservers_def)
  from u t show "webAudioEventInterest (debuggerSubject \<tau>) = webAudioEventInterest (debuggerSubject \<sigma>)"
    by (simp add: unchanged_def commandObservers_def)
  from u t show "unhandledErrors \<tau> = unhandledErrors \<sigma>"
    by (simp add: unchanged_def commandObservers_def)
  from u t show "commands \<tau> = commands \<sigma>"
    by (simp add: unchanged_def commandObservers_def)
  from u t show "commandPipes \<tau> =
          (if c = attachState_subject \<and> v = IS_ACTIVE then map startPipe (commandPipes \<sigma>)
           else commandPipes \<sigma>)"
    by (simp add: unchanged_def commandObservers_def)
  from u t show "callsOf (pendingCalls \<tau>) =
          (if c = attachState_subject \<and> v = IS_ACTIVE
           then callsOf (pendingCalls \<sigma>) @ waitingPipes (commandPipes \<sigma>)
           else callsOf (pendingCalls \<sigma>))"
    by (simp add: unchanged_def commandObservers_def)
qed

lemma nextPermission_frame:
  assumes "nextPermission (debuggerState n) v \<sigma> = Some \<tau>"
  shows "permission (debuggerSubject \<tau>) = v"
    and "attachInterest (debuggerSubject \<tau>) = attachInterest (debuggerSubject \<sigma>)"
    and "webAudioEventInterest (debuggerSubject \<tau>) = webAudioEventInterest (debuggerSubject \<sigma>)"
    and "unhandledErrors \<tau> = unhandledErrors \<sigma>"
    and "commandPipes \<tau> = commandPipes \<sigma>"
    and "callsOf (pendingCalls \<tau>) = callsOf (pendingCalls \<sigma>)"
    and "commands \<tau> = commands \<sigma>"
  using debuggerState_unchanged[OF assms[unfolded nextPermission_def]]
  by (simp_all add: unchanged_def)

lemma nextCounter_frame:
  assumes "nextCounter (debuggerState n) c v \<sigma> = Some \<tau>"
  shows "permission (debuggerSubject \<tau>) = permission (debuggerSubject \<sigma>)"
    and "counterValue c \<tau> = v"
    and "\<And>c'. c' \<noteq> c \<Longrightarrow> counterValue c' \<tau> = counterValue c' \<sigma>"
    and "unhandledErrors \<tau> = unhandledErrors \<sigma>"
    and "commandPipes \<tau> = commandPipes \<sigma>"
    and "callsOf (pendingCalls \<tau>) = callsOf (pendingCalls \<sigma>)"
    and "commands \<tau> = commands \<sigma>"
proof -
  let ?\<sigma>' = "case c of
        attachInterest_subject \<Rightarrow> \<sigma>\<lparr>debuggerSubject := (debuggerSubject \<sigma>)\<lparr>attachInterest := v\<rparr>\<rparr>
      | webAudioEventInterest_subject \<Rightarrow>
          \<sigma>\<lparr>debuggerSubject := (debuggerSubject \<sigma>)\<lparr>webAudioEventInterest := v\<rparr>\<rparr>"
  from assms have "debuggerState n ?\<sigma>' = Some \<tau>"
    by (cases c) (simp_all add: nextCounter_def)
  then have u: "unchanged ?\<sigma>' \<tau>" by (rule debuggerState_unchanged)
  from u show "permission (debuggerSubject \<tau>) = permission (debuggerSubject \<sigma>)"
    by (cases c) (simp_all add: unchanged_def)
  from u show "counterValue c \<tau> = v"
    by (cases c) (simp_all add: unchanged_def counterValue_def)
  from u show "unhandledErrors \<tau> = unhandledErrors \<sigma>"
    by (cases c) (simp_all add: unchanged_def)
  from u show "commandPipes \<tau> = commandPipes \<sigma>"
    by (cases c) (simp_all add: unchanged_def)
  from u show "commands \<tau> = commands \<sigma>"
    by (cases c) (simp_all add: unchanged_def)
  from u show "callsOf (pendingCalls \<tau>) = callsOf (pendingCalls \<sigma>)"
    by (cases c) (simp_all add: unchanged_def)
  fix c' assume "c' \<noteq> c"
  with u show "counterValue c' \<tau> = counterValue c' \<sigma>"
    by (cases c; cases c') (simp_all add: unchanged_def counterValue_def)
qed

lemma grantTemporary_permission:
  "grantTemporary (debuggerState n) \<sigma> = Some \<tau> \<Longrightarrow>
   permission (debuggerSubject \<tau>) =
     (if permission (debuggerSubject \<sigma>) = UNKNOWN then TEMPORARY
      else permission (debuggerSubject \<sigma>))"
  by (auto simp: grantTemporary_def split: if_splits dest: nextPermission_frame(1))

lemma reject_permission:
  "reject (debuggerState n) \<sigma> = Some \<tau> \<Longrightarrow> permission (debuggerSubject \<tau>) = REJECTED"
  by (auto simp: reject_def split: if_splits dest: nextPermission_frame(1))

lemma onDebuggerDetach_permission:
  assumes "onDebuggerDetach (debuggerState n) reason \<sigma> = Some \<tau>"
  shows "permission (debuggerSubject \<tau>) =
     (if reason = ''canceled_by_user'' then REJECTED else permission (debuggerSubject \<sigma>))"
proof -
  from assms obtain \<sigma>1 where
    r: "(if reason = ''canceled_by_user'' then reject (debuggerState n) \<sigma> else Some \<sigma>) = Some \<sigma>1"
    and f: "nextState (debuggerState n) attachState_subject IS_INACTIVE \<sigma>1 = Some \<tau>"
    by (auto simp: onDebuggerDetach_def split: bind_splits)
  from r have "permission (debuggerSubject \<sigma>1) =
     (if reason = ''canceled_by_user'' then REJECTED else permission (debuggerSubject \<sigma>))"
    by (auto split: if_splits dest: reject_permission)
  with nextState_frame(1)[OF f] show ?thesis by simp
qed

lemma settleTransition_permission:
  "settleTransition (debuggerState n) c d r \<sigma> = Some \<tau> \<Longrightarrow>
   permission (debuggerSubject \<tau>) = permission (debuggerSubject \<sigma>)"
  by (auto simp: settleTransition_def split: option.splits sum.splits dest: nextState_frame(1))

lemma settleCommand_permission:
  "settleCommand (debuggerState n) k r \<sigma> = Some \<tau> \<Longrightarrow>
   permission (debuggerSubject \<tau>) = permission (debuggerSubject \<sigma>)"
  by (auto simp: settleCommand_def decrement_def split: if_splits dest: nextCounter_frame(1))

lemma unsubscribePipe_permission:
  "unsubscribePipe (debuggerState n) k \<sigma> = Some \<tau> \<Longrightarrow>
   permission (debuggerSubject \<tau>) = permission (debuggerSubject \<sigma>)"
  by (auto simp: unsubscribePipe_def decrement_def split: if_splits dest: nextCounter_frame(1))

lemma callback_permission:
  "callback (debuggerState n) i r \<sigma> = Some \<tau> \<Longrightarrow>
   permission (debuggerSubject \<tau>) = permission (debuggerSubject \<sigma>)"
  by (auto simp: callback_def split: if_splits pendingCall.splits
      dest: settleTransition_permission settleCommand_permission)

lemma sendCommand_permission:
  "sendCommand (debuggerState n) m \<sigma> = Some \<tau> \<Longrightarrow>
   permission (debuggerSubject \<tau>) = permission (debuggerSubject \<sigma>)"
  by (auto simp: sendCommand_def increment_def split: bind_splits dest: nextCounter_frame(1))

lemma step_keeps_REJECTED:
  assumes "step n e \<sigma> = Some \<tau>" and "permission (debuggerSubject \<sigma>) = REJECTED"
  shows "permission (debuggerSubject \<tau>) = REJECTED"
proof (cases e)
  case GrantTemporary
  with assms show ?thesis by (auto dest: grantTemporary_permission)
next
  case Reject
  with assms show ?thesis by (auto dest: reject_permission)
next
  case (Increment c)
  with assms show ?thesis by (auto simp: increment_def dest: nextCounter_frame(1))
next
  case (Decrement c)
  with assms show ?thesis by (auto simp: decrement_def dest: nextCounter_frame(1))
next
  case (OnDetach reason)
  with assms show ?thesis by (auto dest: onDebuggerDetach_permission)
next
  case (SendCommand m)
  with assms show ?thesis by (auto dest: sendCommand_permission)
next
  case (Subscribe k)
  with assms show ?thesis by (auto simp: subscribePipe_def)
next
  case (Unsubscribe k)
  with assms show ?thesis by (auto dest: unsubscribePipe_permission)
next
  case (Callback i r)
  with assms show ?thesis by (auto dest: callback_permission)
qed

lemma run_keeps_REJECTED:
  "run n es \<sigma> = Some \<tau> \<Longrightarrow> permission (debuggerSubject \<sigma>) = REJECTED
    \<Longrightarrow> permission (debuggerSubject \<tau>) = REJECTED"
proof (induction es arbitrary: \<sigma>)
  case Nil
  then show ?case by simp
next
  case (Cons e es)
  from Cons.prems(1) obtain \<sigma>' where s: "step n e \<sigma> = Some \<sigma>'" and r: "run n es \<sigma>' = Some \<tau>"
    by (auto split: bind_splits)
  from s Cons.prems(2) have "permission (debuggerSubject \<sigma>') = REJECTED"
    by (rule step_keeps_REJECTED)
  with r show ?case by (rule Cons.IH)
qed

section \<open>Every event is handled\<close>

lemma total_nextState: "total notify \<Longrightarrow> \<exists>\<tau>. nextState notify c v \<sigma> = Some \<tau>"
  by (cases c) (auto simp: nextState_def total_def split: bind_splits)

lemma total_nextPermission: "total notify \<Longrightarrow> \<exists>\<tau>. nextPermission notify v \<sigma> = Some \<tau>"
  by (simp add: nextPermission_def total_def)

lemma total_nextCounter: "total notify \<Longrightarrow> \<exists>\<tau>. nextCounter notify c v \<sigma> = Some \<tau>"
  by (cases c) (simp_all add: nextCounter_def total_def)

lemma total_reject: "total notify \<Longrightarrow> \<exists>\<tau>. reject notify \<sigma> = Some \<tau>"
  by (simp add: reject_def total_nextPermission)

lemma total_onDebuggerDetach:
  assumes "total notify" shows "\<exists>\<tau>. onDebuggerDetach notify reason \<sigma> = Some \<tau>"
proof -
  obtain \<sigma>1 where
    "(if reason = ''canceled_by_user'' then reject notify \<sigma> else Some \<sigma>) = Some \<sigma>1"
    using total_reject[OF assms, of \<sigma>] by (cases "reason = ''canceled_by_user''") auto
  moreover obtain \<tau> where "nextState notify attachState_subject IS_INACTIVE \<sigma>1 = Some \<tau>"
    using total_nextState[OF assms] by blast
  ultimately show ?thesis by (auto simp: onDebuggerDetach_def)
qed

lemma total_sendCommand:
  assumes "total notify" shows "\<exists>\<tau>. sendCommand notify m \<sigma> = Some \<tau>"
proof -
  obtain \<sigma>1 where "increment notify attachInterest_subject \<sigma> = Some \<sigma>1"
    using total_nextCounter[OF assms] unfolding increment_def by blast
  then show ?thesis by (simp add: sendCommand_def)
qed

lemma total_settleTransition:
  assumes "total notify" shows "\<exists>\<tau>. settleTransition notify c d r \<sigma> = Some \<tau>"
  using total_nextState[OF assms]
  by (simp add: settleTransition_def split: option.splits sum.splits)

lemma total_settleCommand:
  assumes "total notify" shows "\<exists>\<tau>. settleCommand notify k r \<sigma> = Some \<tau>"
  using total_nextCounter[OF assms]
  by (simp add: settleCommand_def decrement_def)

lemma total_unsubscribePipe:
  assumes "total notify" shows "\<exists>\<tau>. unsubscribePipe notify k \<sigma> = Some \<tau>"
  using total_nextCounter[OF assms]
  by (simp add: unsubscribePipe_def decrement_def)

lemma total_callback:
  assumes "total notify" shows "\<exists>\<tau>. callback notify i r \<sigma> = Some \<tau>"
  using total_settleTransition[OF assms] total_settleCommand[OF assms]
  by (simp add: callback_def split: pendingCall.splits)

lemma step_returns:
  assumes "4 \<le> n" shows "\<exists>\<tau>. step n e \<sigma> = Some \<tau>"
proof -
  from assms have t: "total (debuggerState n)" by (rule total_debuggerState)
  show ?thesis
  proof (cases e)
    case GrantTemporary
    then show ?thesis using total_nextPermission[OF t] by (simp add: grantTemporary_def)
  next
    case Reject
    then show ?thesis using total_reject[OF t] by simp
  next
    case (Increment c)
    then show ?thesis using total_nextCounter[OF t] by (simp add: increment_def)
  next
    case (Decrement c)
    then show ?thesis using total_nextCounter[OF t] by (simp add: decrement_def)
  next
    case (OnDetach reason)
    then show ?thesis using total_onDebuggerDetach[OF t] by simp
  next
    case (SendCommand m)
    then show ?thesis using total_sendCommand[OF t] by simp
  next
    case (Subscribe k)
    then show ?thesis by simp
  next
    case (Unsubscribe k)
    then show ?thesis using total_unsubscribePipe[OF t] by simp
  next
    case (Callback i r)
    then show ?thesis using total_callback[OF t] by simp
  qed
qed

lemma run_returns: "4 \<le> n \<Longrightarrow> \<exists>\<tau>. run n es \<sigma> = Some \<tau>"
proof (induction es arbitrary: \<sigma>)
  case Nil
  show ?case by simp
next
  case (Cons e es)
  from Cons.prems obtain \<sigma>' where "step n e \<sigma> = Some \<sigma>'" using step_returns by blast
  moreover from Cons.IH[OF Cons.prems] obtain \<tau> where "run n es \<sigma>' = Some \<tau>" by blast
  ultimately show ?case by simp
qed

text \<open>
  From four pushes on, the budget makes no difference to what an event does: what is
  evaluated below with a budget of four holds with every larger one.
\<close>

lemma step_enough: "4 \<le> n \<Longrightarrow> step n e \<sigma> = step 4 e \<sigma>"
  using debuggerState_enough[of n] by (cases e) simp_all

lemma run_enough: "4 \<le> n \<Longrightarrow> run n es \<sigma> = run 4 es \<sigma>"
proof (induction es arbitrary: \<sigma>)
  case Nil
  show ?case by simp
next
  case (Cons e es)
  from Cons.prems have "step n e \<sigma> = step 4 e \<sigma>" by (rule step_enough)
  moreover have "run n es = run 4 es" using Cons.prems by (intro ext Cons.IH)
  ultimately show ?case by simp
qed

lemma afterEvents_enough: "4 \<le> n \<Longrightarrow> afterEvents n es = afterEvents 4 es"
  using run_enough[of n es initial] by (simp add: afterEvents_def constructor_initial)

section \<open>The permission gate\<close>

text \<open>
  C4. \<open>grantTemporary()\<close> pushes \<open>TEMPORARY\<close> exactly when the value is \<open>UNKNOWN\<close> and
  does nothing otherwise; \<open>reject()\<close> pushes \<open>REJECTED\<close> exactly when the value is not
  \<open>REJECTED\<close> yet. Once the permission is \<open>REJECTED\<close> it stays \<open>REJECTED\<close> under every
  sequence of events of the controller (calls of \<open>grantTemporary\<close> and \<open>reject\<close>
  among them), and with a budget of four pushes every such sequence is handled.
\<close>

theorem rejected_permission_is_final:
  "grantTemporary notify \<sigma> =
     (if permission (debuggerSubject \<sigma>) = UNKNOWN then nextPermission notify TEMPORARY \<sigma>
      else Some \<sigma>) \<and>
   reject notify \<sigma> =
     (if permission (debuggerSubject \<sigma>) \<noteq> REJECTED then nextPermission notify REJECTED \<sigma>
      else Some \<sigma>) \<and>
   (\<forall>\<tau>. step n GrantTemporary \<sigma> = Some \<tau> \<longrightarrow>
      permission (debuggerSubject \<tau>) =
        (if permission (debuggerSubject \<sigma>) = UNKNOWN then TEMPORARY
         else permission (debuggerSubject \<sigma>))) \<and>
   (\<forall>\<tau>. step n Reject \<sigma> = Some \<tau> \<longrightarrow> permission (debuggerSubject \<tau>) = REJECTED) \<and>
   (\<forall>es. (4 \<le> n \<longrightarrow> (\<exists>\<tau>. run n es \<sigma> = Some \<tau>)) \<and>
         (permission (debuggerSubject \<sigma>) = REJECTED \<longrightarrow>
            (\<forall>\<tau>. run n es \<sigma> = Some \<tau> \<longrightarrow> permission (debuggerSubject \<tau>) = REJECTED)))"
proof (intro conjI allI impI)
  show "grantTemporary notify \<sigma> =
     (if permission (debuggerSubject \<sigma>) = UNKNOWN then nextPermission notify TEMPORARY \<sigma>
      else Some \<sigma>)"
    by (simp add: grantTemporary_def)
  show "reject notify \<sigma> =
     (if permission (debuggerSubject \<sigma>) \<noteq> REJECTED then nextPermission notify REJECTED \<sigma>
      else Some \<sigma>)"
    by (simp add: reject_def)
next
  fix \<tau> assume "step n GrantTemporary \<sigma> = Some \<tau>"
  then show "permission (debuggerSubject \<tau>) =
        (if permission (debuggerSubject \<sigma>) = UNKNOWN then TEMPORARY
         else permission (debuggerSubject \<sigma>))"
    by (simp add: grantTemporary_permission)
next
  fix \<tau> assume "step n Reject \<sigma> = Some \<tau>"
  then show "permission (debuggerSubject \<tau>) = REJECTED"
    by (simp add: reject_permission)
next
  fix es assume "4 \<le> n"
  then show "\<exists>\<tau>. run n es \<sigma> = Some \<tau>" by (rule run_returns)
next
  fix es \<tau>
  assume "permission (debuggerSubject \<sigma>) = REJECTED" and "run n es \<sigma> = Some \<tau>"
  then show "permission (debuggerSubject \<tau>) = REJECTED" by (simp add: run_keeps_REJECTED)
qed

text \<open>
  Instances: on the new controller a grant gives \<open>TEMPORARY\<close> and a rejection gives
  \<open>REJECTED\<close>; from a controller whose permission is \<open>REJECTED\<close>, two grants around a
  rejection are handled and leave \<open>REJECTED\<close>.
\<close>

theorem rejected_permission_is_final_witness:
  "(\<exists>\<tau>. step 4 GrantTemporary initial = Some \<tau> \<and> permission (debuggerSubject \<tau>) = TEMPORARY) \<and>
   (\<exists>\<tau>. step 4 Reject initial = Some \<tau> \<and> permission (debuggerSubject \<tau>) = REJECTED) \<and>
   (\<exists>\<tau>. run 4 [GrantTemporary, Reject, GrantTemporary]
          (initial\<lparr>debuggerSubject := (debuggerSubject initial)\<lparr>permission := REJECTED\<rparr>\<rparr>) = Some \<tau> \<and>
        permission (debuggerSubject \<tau>) = REJECTED \<and>
        permission (debuggerSubject
          (initial\<lparr>debuggerSubject := (debuggerSubject initial)\<lparr>permission := REJECTED\<rparr>\<rparr>)) = REJECTED)"
proof -
  let ?\<sigma> = "initial\<lparr>debuggerSubject := (debuggerSubject initial)\<lparr>permission := REJECTED\<rparr>\<rparr>"
  let ?es = "[GrantTemporary, Reject, GrantTemporary]"
  have p: "permission (debuggerSubject ?\<sigma>) = REJECTED" by simp
  have n: "(4::nat) \<le> 4" by simp
  from rejected_permission_is_final[of _ ?\<sigma> 4]
  have "(4::nat) \<le> 4 \<longrightarrow> (\<exists>\<tau>. run 4 ?es ?\<sigma> = Some \<tau>)"
    and "permission (debuggerSubject ?\<sigma>) = REJECTED \<longrightarrow>
            (\<forall>\<tau>. run 4 ?es ?\<sigma> = Some \<tau> \<longrightarrow> permission (debuggerSubject \<tau>) = REJECTED)"
    by blast+
  with p n have C: "\<exists>\<tau>. run 4 ?es ?\<sigma> = Some \<tau> \<and> permission (debuggerSubject \<tau>) = REJECTED \<and>
      permission (debuggerSubject ?\<sigma>) = REJECTED"
    by blast
  note I = rejected_permission_is_final[of _ initial 4]
  obtain \<tau>1 where g: "step 4 GrantTemporary initial = Some \<tau>1" using step_returns[of 4] by blast
  with I have "permission (debuggerSubject \<tau>1) =
      (if permission (debuggerSubject initial) = UNKNOWN then TEMPORARY
       else permission (debuggerSubject initial))"
    by blast
  then have "permission (debuggerSubject \<tau>1) = TEMPORARY" by (simp add: initial_def fresh_def)
  with g have A: "\<exists>\<tau>. step 4 GrantTemporary initial = Some \<tau> \<and> permission (debuggerSubject \<tau>) = TEMPORARY"
    by blast
  obtain \<tau>2 where r: "step 4 Reject initial = Some \<tau>2" using step_returns[of 4] by blast
  with I have "permission (debuggerSubject \<tau>2) = REJECTED" by blast
  with r have B: "\<exists>\<tau>. step 4 Reject initial = Some \<tau> \<and> permission (debuggerSubject \<tau>) = REJECTED"
    by blast
  from A B C show ?thesis by (intro conjI)
qed

section \<open>Where a reaction leaves the attachment\<close>

lemma attachOutcome_cong:
  "permission s' = permission s \<Longrightarrow> attachInterest s' = attachInterest s \<Longrightarrow>
   attachState s' = attachOutcome s \<Longrightarrow> attachOutcome s' = attachState s'"
  by (auto simp: attachOutcome_def)

lemma attachSettles_stable:
  assumes "attachSettles notify" and "notify \<sigma> = Some \<tau>"
    and "attachOutcome (debuggerSubject \<sigma>) = attachState (debuggerSubject \<sigma>)"
  shows "attachState (debuggerSubject \<tau>) = attachState (debuggerSubject \<sigma>)"
  using assms by (simp add: attachSettles_def)

lemma attachSettles_attachPolicy:
  assumes "attachSettles notify"
    and "attachPolicy notify (debuggerSubject \<sigma>) \<sigma> = Some \<tau>"
  shows "attachState (debuggerSubject \<tau>) = attachOutcome (debuggerSubject \<sigma>)"
proof -
  let ?s = "debuggerSubject \<sigma>"
  let ?d = "if permission ?s = TEMPORARY \<and> attachInterest ?s > 0
            then activateTransition attachState_subject
            else deactivateTransition attachState_subject"
  have "attachPolicy notify ?s \<sigma> = transition notify attachState_subject ?d \<sigma>"
    by (simp add: attachPolicy_def activate_def deactivate_def)
  with assms(2) have t: "transition notify attachState_subject ?d \<sigma> = Some \<tau>"
    by simp
  show ?thesis
  proof (cases "attachState ?s = beginningState ?d")
    case True
    let ?\<sigma>' = "setValue attachState_subject (intermediateState ?d) \<sigma>"
    from True t obtain \<sigma>'' where n: "notify ?\<sigma>' = Some \<sigma>''"
      and e: "attachState (debuggerSubject \<tau>) = attachState (debuggerSubject \<sigma>'')"
      by (auto simp: transition_def nextState_def valueOf_def commandObservers_def
          activateTransition_def deactivateTransition_def
          split: bind_splits if_splits)
    have i: "attachState (debuggerSubject ?\<sigma>') = attachOutcome ?s"
      using True by (auto simp: setValue_def attachOutcome_def activateTransition_def
          deactivateTransition_def split: if_splits)
    have "attachOutcome (debuggerSubject ?\<sigma>') = attachState (debuggerSubject ?\<sigma>')"
      using i by (intro attachOutcome_cong[of _ ?s]) (simp_all add: setValue_def)
    from attachSettles_stable[OF assms(1) n this] e i show ?thesis by simp
  next
    case False
    with t have "\<tau> = \<sigma>" by (simp add: transition_def valueOf_def)
    with False show ?thesis
      by (auto simp: attachOutcome_def activateTransition_def deactivateTransition_def
          split: if_splits)
  qed
qed

lemma attachState_setValue_other [simp]:
  "attachState (debuggerSubject (setValue webAudioEventState_subject v \<sigma>)) =
   attachState (debuggerSubject \<sigma>)"
  "permission (debuggerSubject (setValue c v \<sigma>)) = permission (debuggerSubject \<sigma>)"
  "attachInterest (debuggerSubject (setValue c v \<sigma>)) = attachInterest (debuggerSubject \<sigma>)"
  by (cases c; simp add: setValue_def)+

lemma attachSettles_eventState:
  assumes "attachSettles notify"
    and "attachOutcome (debuggerSubject \<sigma>) = attachState (debuggerSubject \<sigma>)"
    and "nextState notify webAudioEventState_subject v \<sigma> = Some \<tau>"
  shows "attachState (debuggerSubject \<tau>) = attachState (debuggerSubject \<sigma>)"
proof -
  let ?\<sigma>' = "setValue webAudioEventState_subject v \<sigma>"
  from assms(3) have n: "notify ?\<sigma>' = Some \<tau>" by (simp add: nextState_def)
  have "attachOutcome (debuggerSubject ?\<sigma>') = attachState (debuggerSubject ?\<sigma>')"
    using assms(2) by (intro attachOutcome_cong[of _ "debuggerSubject \<sigma>"]) simp_all
  from attachSettles_stable[OF assms(1) n this] show ?thesis by simp
qed

lemma attachSettles_eventTransition:
  assumes "attachSettles notify"
    and "attachOutcome (debuggerSubject \<sigma>) = attachState (debuggerSubject \<sigma>)"
    and "transition notify webAudioEventState_subject d \<sigma> = Some \<tau>"
  shows "attachState (debuggerSubject \<tau>) = attachState (debuggerSubject \<sigma>)"
proof (cases "valueOf webAudioEventState_subject \<sigma> = beginningState d")
  case True
  with assms(3) obtain \<sigma>' where
    n: "nextState notify webAudioEventState_subject (intermediateState d) \<sigma> = Some \<sigma>'"
    and t: "\<tau> = \<sigma>'\<lparr>pendingCalls := pendingCalls \<sigma>' @ [TransitionCall webAudioEventState_subject d]\<rparr>"
    by (auto simp: transition_def split: bind_splits)
  from attachSettles_eventState[OF assms(1,2) n] t show ?thesis by simp
next
  case False
  with assms(3) show ?thesis by (simp add: transition_def)
qed

lemma attachSettles_webAudioEventPolicy:
  assumes "attachSettles notify"
    and "attachOutcome (debuggerSubject \<sigma>) = attachState (debuggerSubject \<sigma>)"
    and "webAudioEventPolicy notify s \<sigma> = Some \<tau>"
  shows "attachState (debuggerSubject \<tau>) = attachState (debuggerSubject \<sigma>)"
  using assms(3)
  by (auto simp: webAudioEventPolicy_def activate_def deactivate_def split: if_splits
      dest: attachSettles_eventTransition[OF assms(1,2)] attachSettles_eventState[OF assms(1,2)])

lemma attachSettles_pushCombined:
  assumes "attachSettles notify" and "keeps notify"
  shows "attachSettles (pushCombined notify)"
  unfolding attachSettles_def
proof (intro allI impI)
  fix \<sigma> \<tau> assume p: "pushCombined notify \<sigma> = Some \<tau>"
  let ?s = "debuggerSubject \<sigma>"
  let ?\<sigma>0 = "\<sigma>\<lparr>previousKey := Some ?s, combinedState := combinedState \<sigma> @ [?s]\<rparr>"
  show "attachState (debuggerSubject \<tau>) =
          (if previousKey \<sigma> = Some ?s then attachState ?s else attachOutcome ?s)"
  proof (cases "previousKey \<sigma> = Some ?s")
    case True
    with p show ?thesis by (simp add: pushCombined_def)
  next
    case False
    with p obtain \<sigma>1 where a: "attachPolicy notify (debuggerSubject ?\<sigma>0) ?\<sigma>0 = Some \<sigma>1"
      and w: "webAudioEventPolicy notify ?s \<sigma>1 = Some \<tau>"
      by (auto simp: pushCombined_def Let_def split: bind_splits)
    from attachSettles_attachPolicy[OF assms(1) a]
    have o: "attachState (debuggerSubject \<sigma>1) = attachOutcome ?s" by simp
    from keeps_attachPolicy[OF assms(2) a]
    have "attachOutcome (debuggerSubject \<sigma>1) = attachState (debuggerSubject \<sigma>1)"
      using o by (intro attachOutcome_cong[of _ ?s]) (simp_all add: unchanged_def)
    from attachSettles_webAudioEventPolicy[OF assms(1) this w] o False
    show ?thesis by simp
  qed
qed

lemma attachSettles_debuggerState: "attachSettles (debuggerState n)"
proof (induction n)
  case 0
  show ?case by (simp add: attachSettles_def)
next
  case (Suc n)
  then show ?case by (simp add: attachSettles_pushCombined keeps_debuggerState)
qed

lemma debuggerState_attachState:
  "debuggerState n \<sigma> = Some \<tau> \<Longrightarrow>
   attachState (debuggerSubject \<tau>) =
     (if previousKey \<sigma> = Some (debuggerSubject \<sigma>) then attachState (debuggerSubject \<sigma>)
      else attachOutcome (debuggerSubject \<sigma>))"
  using attachSettles_debuggerState[of n] by (simp add: attachSettles_def)

section \<open>The attachment policy\<close>

text \<open>
  C5. The first subscriber calls \<open>activate()\<close> on \<open>attachState$\<close> exactly when the
  combined value has permission \<open>TEMPORARY\<close> and a positive attach interest, and
  \<open>deactivate()\<close> in every other case. It is called with every combined value that
  differs from the previous one (the values that \<open>combinedState$\<close> emits), and with no
  other. A reaction to such a value
  therefore leaves the attachment where the guarded call puts it: \<open>ACTIVATING\<close> from
  \<open>IS_INACTIVE\<close> in the first case, \<open>DEACTIVATING\<close> from \<open>IS_ACTIVE\<close> in the second,
  and the value it had otherwise.
\<close>

theorem attach_policy_follows_permission_and_interest:
  "attachPolicy notify state \<sigma> =
     (if permission state = TEMPORARY \<and> attachInterest state > 0
      then activate notify attachState_subject \<sigma>
      else deactivate notify attachState_subject \<sigma>) \<and>
   pushCombined notify \<sigma> =
     (if previousKey \<sigma> = Some (debuggerSubject \<sigma>) then Some \<sigma>
      else do {
        \<sigma>1 \<leftarrow> attachPolicy notify (debuggerSubject \<sigma>)
                (\<sigma>\<lparr>previousKey := Some (debuggerSubject \<sigma>),
                   combinedState := combinedState \<sigma> @ [debuggerSubject \<sigma>]\<rparr>);
        webAudioEventPolicy notify (debuggerSubject \<sigma>) \<sigma>1
      }) \<and>
   (\<forall>\<tau>. previousKey \<sigma> \<noteq> Some (debuggerSubject \<sigma>) \<longrightarrow> debuggerState n \<sigma> = Some \<tau> \<longrightarrow>
      attachState (debuggerSubject \<tau>) = attachOutcome (debuggerSubject \<sigma>))"
proof (intro conjI allI impI)
  show "attachPolicy notify state \<sigma> =
     (if permission state = TEMPORARY \<and> attachInterest state > 0
      then activate notify attachState_subject \<sigma>
      else deactivate notify attachState_subject \<sigma>)"
    by (simp add: attachPolicy_def)
  show "pushCombined notify \<sigma> =
     (if previousKey \<sigma> = Some (debuggerSubject \<sigma>) then Some \<sigma>
      else do {
        \<sigma>1 \<leftarrow> attachPolicy notify (debuggerSubject \<sigma>)
                (\<sigma>\<lparr>previousKey := Some (debuggerSubject \<sigma>),
                   combinedState := combinedState \<sigma> @ [debuggerSubject \<sigma>]\<rparr>);
        webAudioEventPolicy notify (debuggerSubject \<sigma>) \<sigma>1
      })"
    by (simp add: pushCombined_def Let_def)
next
  fix \<tau>
  assume "previousKey \<sigma> \<noteq> Some (debuggerSubject \<sigma>)" and "debuggerState n \<sigma> = Some \<tau>"
  then show "attachState (debuggerSubject \<tau>) = attachOutcome (debuggerSubject \<sigma>)"
    by (simp add: debuggerState_attachState)
qed

text \<open>
  An instance: permission \<open>TEMPORARY\<close>, interest 1, attachment inactive, pushed for
  the first time.
\<close>

theorem attach_policy_follows_permission_and_interest_witness:
  "\<exists>\<tau>. debuggerState 4
          (initial\<lparr>debuggerSubject :=
             (debuggerSubject initial)\<lparr>permission := TEMPORARY, attachInterest := 1\<rparr>\<rparr>) = Some \<tau> \<and>
        attachState (debuggerSubject \<tau>) = ACTIVATING"
proof -
  let ?\<sigma> = "initial\<lparr>debuggerSubject :=
             (debuggerSubject initial)\<lparr>permission := TEMPORARY, attachInterest := 1\<rparr>\<rparr>"
  obtain \<tau> where t: "debuggerState 4 ?\<sigma> = Some \<tau>"
    using debuggerState_returns[of 0 ?\<sigma>] by (auto simp: eval_nat_numeral)
  have d: "previousKey ?\<sigma> \<noteq> Some (debuggerSubject ?\<sigma>)"
    by (simp add: initial_def fresh_def)
  from attach_policy_follows_permission_and_interest[of _ _ ?\<sigma> 4] d t
  have "attachState (debuggerSubject \<tau>) = attachOutcome (debuggerSubject ?\<sigma>)"
    by blast
  also have "\<dots> = ACTIVATING" by (simp add: attachOutcome_def initial_def fresh_def)
  finally show ?thesis using t by blast
qed

section \<open>Detachment from outside\<close>

lemma onDebuggerDetach_attachState:
  assumes "onDebuggerDetach (debuggerState n) reason \<sigma> = Some \<tau>"
  shows "attachState (debuggerSubject \<tau>) = IS_INACTIVE \<or>
         attachState (debuggerSubject \<tau>) = ACTIVATING \<and>
         permission (debuggerSubject \<tau>) = TEMPORARY \<and> attachInterest (debuggerSubject \<tau>) > 0"
proof -
  from assms obtain \<sigma>1 where
    f: "nextState (debuggerState n) attachState_subject IS_INACTIVE \<sigma>1 = Some \<tau>"
    by (auto simp: onDebuggerDetach_def split: bind_splits)
  let ?\<sigma>' = "setValue attachState_subject IS_INACTIVE \<sigma>1"
  from f obtain \<sigma>'' where n: "debuggerState n ?\<sigma>' = Some \<sigma>''"
    and t: "\<tau> = commandObservers IS_INACTIVE \<sigma>''"
    by (auto simp: nextState_def split: bind_splits)
  from debuggerState_attachState[OF n]
  have "attachState (debuggerSubject \<sigma>'') = IS_INACTIVE \<or>
        attachState (debuggerSubject \<sigma>'') = ACTIVATING \<and>
        permission (debuggerSubject ?\<sigma>') = TEMPORARY \<and> attachInterest (debuggerSubject ?\<sigma>') > 0"
    by (auto simp: attachOutcome_def setValue_def split: if_splits)
  moreover from debuggerState_unchanged[OF n]
  have "permission (debuggerSubject \<sigma>'') = permission (debuggerSubject ?\<sigma>')"
    and "attachInterest (debuggerSubject \<sigma>'') = attachInterest (debuggerSubject ?\<sigma>')"
    by (simp_all add: unchanged_def)
  ultimately show ?thesis unfolding t by (simp add: commandObservers_def)
qed

text \<open>
  C10. The subscriber of \<open>onDebuggerDetach$\<close>: for every reason other than
  \<open>canceled_by_user\<close> the handler is the unguarded push of \<open>IS_INACTIVE\<close> into
  \<open>attachState$\<close> and nothing else, and the permission after the event is the permission
  before it; for \<open>canceled_by_user\<close> the handler calls \<open>reject()\<close> first, and the permission
  after the event is \<open>REJECTED\<close>. When the handler returns the attachment is \<open>IS_INACTIVE\<close>,
  unless the attachment policy has answered the pushed value by activating again
  (permission \<open>TEMPORARY\<close> and positive interest), which leaves \<open>ACTIVATING\<close>.
\<close>

theorem external_detach_forces_inactive:
  "(reason \<noteq> ''canceled_by_user'' \<longrightarrow>
      onDebuggerDetach notify reason \<sigma> = nextState notify attachState_subject IS_INACTIVE \<sigma>) \<and>
   (reason = ''canceled_by_user'' \<longrightarrow>
      onDebuggerDetach notify reason \<sigma> =
        do { \<sigma>1 \<leftarrow> reject notify \<sigma>; nextState notify attachState_subject IS_INACTIVE \<sigma>1 }) \<and>
   (\<forall>\<tau>. step n (OnDetach reason) \<sigma> = Some \<tau> \<longrightarrow>
      permission (debuggerSubject \<tau>) =
        (if reason = ''canceled_by_user'' then REJECTED else permission (debuggerSubject \<sigma>)) \<and>
      (attachState (debuggerSubject \<tau>) = IS_INACTIVE \<or>
       attachState (debuggerSubject \<tau>) = ACTIVATING \<and>
       permission (debuggerSubject \<tau>) = TEMPORARY \<and> attachInterest (debuggerSubject \<tau>) > 0))"
proof (intro conjI allI impI)
  assume "reason \<noteq> ''canceled_by_user''"
  then show "onDebuggerDetach notify reason \<sigma> = nextState notify attachState_subject IS_INACTIVE \<sigma>"
    by (simp add: onDebuggerDetach_def)
next
  assume "reason = ''canceled_by_user''"
  then show "onDebuggerDetach notify reason \<sigma> =
        do { \<sigma>1 \<leftarrow> reject notify \<sigma>; nextState notify attachState_subject IS_INACTIVE \<sigma>1 }"
    by (simp add: onDebuggerDetach_def)
next
  fix \<tau> assume s: "step n (OnDetach reason) \<sigma> = Some \<tau>"
  then show "permission (debuggerSubject \<tau>) =
        (if reason = ''canceled_by_user'' then REJECTED else permission (debuggerSubject \<sigma>))"
    by (simp add: onDebuggerDetach_permission)
  from s show "attachState (debuggerSubject \<tau>) = IS_INACTIVE \<or>
       attachState (debuggerSubject \<tau>) = ACTIVATING \<and>
       permission (debuggerSubject \<tau>) = TEMPORARY \<and> attachInterest (debuggerSubject \<tau>) > 0"
    by (simp add: onDebuggerDetach_attachState)
qed

text \<open>
  Instances: the attachment is active with permission \<open>TEMPORARY\<close> and interest 1. When
  the target is closed, the permission stays \<open>TEMPORARY\<close>; when the user cancels, the
  permission is \<open>REJECTED\<close> and the attachment rests in \<open>IS_INACTIVE\<close>.
\<close>

theorem external_detach_forces_inactive_witness:
  "(\<exists>\<tau>. step 4 (OnDetach ''target_closed'')
          (initial\<lparr>debuggerSubject :=
              \<lparr>permission = TEMPORARY, attachInterest = 1, attachState = IS_ACTIVE,
                webAudioEventInterest = 0, webAudioEventState = IS_INACTIVE\<rparr>\<rparr>) = Some \<tau> \<and>
        permission (debuggerSubject \<tau>) = TEMPORARY \<and>
        ''target_closed'' \<noteq> ''canceled_by_user'') \<and>
   (\<exists>\<tau>. step 4 (OnDetach ''canceled_by_user'')
          (initial\<lparr>debuggerSubject :=
              \<lparr>permission = TEMPORARY, attachInterest = 1, attachState = IS_ACTIVE,
                webAudioEventInterest = 0, webAudioEventState = IS_INACTIVE\<rparr>\<rparr>) = Some \<tau> \<and>
        permission (debuggerSubject \<tau>) = REJECTED \<and>
        attachState (debuggerSubject \<tau>) = IS_INACTIVE)"
proof -
  let ?\<sigma> = "initial\<lparr>debuggerSubject :=
              \<lparr>permission = TEMPORARY, attachInterest = 1, attachState = IS_ACTIVE,
                webAudioEventInterest = 0, webAudioEventState = IS_INACTIVE\<rparr>\<rparr>"
  obtain \<tau> where t: "step 4 (OnDetach ''target_closed'') ?\<sigma> = Some \<tau>"
    using step_returns[of 4] by blast
  from external_detach_forces_inactive[of "''target_closed''" _ ?\<sigma> 4] t
  have "permission (debuggerSubject \<tau>) =
        (if ''target_closed'' = ''canceled_by_user'' then REJECTED
         else permission (debuggerSubject ?\<sigma>))"
    by blast
  then have "permission (debuggerSubject \<tau>) = TEMPORARY" by simp
  with t have A: "\<exists>\<tau>. step 4 (OnDetach ''target_closed'') ?\<sigma> = Some \<tau> \<and>
        permission (debuggerSubject \<tau>) = TEMPORARY \<and> ''target_closed'' \<noteq> ''canceled_by_user''"
    by simp
  obtain \<upsilon> where u: "step 4 (OnDetach ''canceled_by_user'') ?\<sigma> = Some \<upsilon>"
    using step_returns[of 4] by blast
  from external_detach_forces_inactive[of "''canceled_by_user''" _ ?\<sigma> 4] u
  have "permission (debuggerSubject \<upsilon>) =
        (if ''canceled_by_user'' = ''canceled_by_user'' then REJECTED
         else permission (debuggerSubject ?\<sigma>))"
    and "attachState (debuggerSubject \<upsilon>) = IS_INACTIVE \<or>
       attachState (debuggerSubject \<upsilon>) = ACTIVATING \<and>
       permission (debuggerSubject \<upsilon>) = TEMPORARY \<and> attachInterest (debuggerSubject \<upsilon>) > 0"
    by blast+
  then have "permission (debuggerSubject \<upsilon>) = REJECTED"
    and "attachState (debuggerSubject \<upsilon>) = IS_INACTIVE"
    by auto
  with u have B: "\<exists>\<tau>. step 4 (OnDetach ''canceled_by_user'') ?\<sigma> = Some \<tau> \<and>
        permission (debuggerSubject \<tau>) = REJECTED \<and> attachState (debuggerSubject \<tau>) = IS_INACTIVE"
    by simp
  from A B show ?thesis by (intro conjI)
qed

section \<open>The event stream and the attachment at rest\<close>

lemma settled_cong:
  "settled \<sigma> \<Longrightarrow> previousKey \<tau> = previousKey \<sigma> \<Longrightarrow> debuggerSubject \<tau> = debuggerSubject \<sigma> \<Longrightarrow> settled \<tau>"
  by (simp add: settled_def)

lemma settled_admissible:
  "settled \<sigma> \<Longrightarrow> previousKey \<tau> = previousKey \<sigma> \<Longrightarrow> admissible \<tau>"
  by (auto simp: settled_def admissible_def)

lemma previousKey_setValue [simp]: "previousKey (setValue c v \<sigma>) = previousKey \<sigma>"
  by (cases c) (simp_all add: setValue_def)

lemma valueOf_setValue [simp]: "valueOf c (setValue c v \<sigma>) = v"
  by (cases c) (simp_all add: setValue_def valueOf_def)

lemma setValue_changes:
  "valueOf c \<sigma> \<noteq> v \<Longrightarrow> debuggerSubject (setValue c v \<sigma>) \<noteq> debuggerSubject \<sigma>"
proof
  assume a: "valueOf c \<sigma> \<noteq> v" and e: "debuggerSubject (setValue c v \<sigma>) = debuggerSubject \<sigma>"
  have "valueOf c (setValue c v \<sigma>) = v" by (rule valueOf_setValue)
  moreover have "valueOf c (setValue c v \<sigma>) = valueOf c \<sigma>"
    by (simp only: valueOf_def e)
  ultimately show False using a by simp
qed

lemma settled_commandObservers: "settled \<sigma> \<Longrightarrow> settled (commandObservers v \<sigma>)"
  by (simp add: commandObservers_def settled_def)

lemma settles_nextState:
  assumes "settles notify" and "admissible (setValue c v \<sigma>)"
    and "nextState notify c v \<sigma> = Some \<tau>"
  shows "settled \<tau>"
proof (cases c)
  case attachState_subject
  with assms(3) obtain \<sigma>' where s: "notify (setValue c v \<sigma>) = Some \<sigma>'"
    and t: "\<tau> = commandObservers v \<sigma>'"
    by (auto simp: nextState_def split: bind_splits)
  from assms(1,2) s have "settled \<sigma>'" by (auto simp: settles_def)
  then show ?thesis unfolding t by (rule settled_commandObservers)
next
  case webAudioEventState_subject
  with assms(3) have "notify (setValue c v \<sigma>) = Some \<tau>" by (simp add: nextState_def)
  with assms(1,2) show ?thesis by (auto simp: settles_def)
qed

lemma settles_transition:
  assumes "settles notify" and "previousKey \<sigma> = Some (debuggerSubject \<sigma>)"
    and "transition notify c d \<sigma> = Some \<tau>"
    and "intermediateState d \<noteq> beginningState d"
  shows "\<tau> = \<sigma> \<or> settled \<tau>"
proof (cases "valueOf c \<sigma> = beginningState d")
  case True
  with assms(3) obtain \<sigma>' where s: "nextState notify c (intermediateState d) \<sigma> = Some \<sigma>'"
    and t: "\<tau> = \<sigma>'\<lparr>pendingCalls := pendingCalls \<sigma>' @ [TransitionCall c d]\<rparr>"
    by (auto simp: transition_def split: bind_splits)
  from True assms(4) have "valueOf c \<sigma> \<noteq> intermediateState d" by simp
  then have "debuggerSubject (setValue c (intermediateState d) \<sigma>) \<noteq> debuggerSubject \<sigma>"
    by (rule setValue_changes)
  with assms(2) have "admissible (setValue c (intermediateState d) \<sigma>)"
    by (simp add: admissible_def)
  with assms(1) have "settled \<sigma>'" using s by (rule settles_nextState)
  then have "settled \<tau>" unfolding t by (simp add: settled_def)
  then show ?thesis ..
next
  case False
  with assms(3) show ?thesis by (simp add: transition_def)
qed


lemma settles_activate:
  assumes "settles notify" and "previousKey \<sigma> = Some (debuggerSubject \<sigma>)"
    and "activate notify c \<sigma> = Some \<tau>"
  shows "\<tau> = \<sigma> \<or> settled \<tau>"
  using settles_transition[OF assms(1,2) assms(3)[unfolded activate_def]]
  by (simp add: activateTransition_def)

lemma settles_deactivate:
  assumes "settles notify" and "previousKey \<sigma> = Some (debuggerSubject \<sigma>)"
    and "deactivate notify c \<sigma> = Some \<tau>"
  shows "\<tau> = \<sigma> \<or> settled \<tau>"
  using settles_transition[OF assms(1,2) assms(3)[unfolded deactivate_def]]
  by (simp add: deactivateTransition_def)

lemma settles_attachPolicy:
  assumes "settles notify" and "previousKey \<sigma> = Some (debuggerSubject \<sigma>)"
    and "attachPolicy notify s \<sigma> = Some \<tau>"
  shows "\<tau> = \<sigma> \<or> settled \<tau>"
proof (cases "permission s = TEMPORARY \<and> attachInterest s > 0")
  case True
  with assms(3) have "activate notify attachState_subject \<sigma> = Some \<tau>"
    by (simp add: attachPolicy_def)
  with assms(1,2) show ?thesis by (rule settles_activate)
next
  case False
  with assms(3) have "deactivate notify attachState_subject \<sigma> = Some \<tau>"
    by (simp add: attachPolicy_def)
  with assms(1,2) show ?thesis by (rule settles_deactivate)
qed

lemma settles_webAudioEventPolicy:
  assumes "settles notify" and "previousKey \<sigma> = Some (debuggerSubject \<sigma>)"
    and "attachState s = IS_ACTIVE \<Longrightarrow> settled \<sigma>"
    and "webAudioEventPolicy notify s \<sigma> = Some \<tau>"
  shows "settled \<tau>"
proof (cases "attachState s = IS_ACTIVE")
  case True
  have "\<tau> = \<sigma> \<or> settled \<tau>"
  proof (cases "webAudioEventInterest s > 0")
    case True
    with \<open>attachState s = IS_ACTIVE\<close> assms(4)
    have "activate notify webAudioEventState_subject \<sigma> = Some \<tau>"
      by (simp add: webAudioEventPolicy_def)
    with assms(1,2) show ?thesis by (rule settles_activate)
  next
    case False
    with \<open>attachState s = IS_ACTIVE\<close> assms(4)
    have "deactivate notify webAudioEventState_subject \<sigma> = Some \<tau>"
      by (simp add: webAudioEventPolicy_def)
    with assms(1,2) show ?thesis by (rule settles_deactivate)
  qed
  with assms(3)[OF True] show ?thesis by blast
next
  case False
  with assms(4) have n: "nextState notify webAudioEventState_subject IS_INACTIVE \<sigma> = Some \<tau>"
    by (simp add: webAudioEventPolicy_def)
  have "admissible (setValue webAudioEventState_subject IS_INACTIVE \<sigma>)"
    by (simp add: admissible_def settled_def setValue_def)
  with assms(1) show ?thesis using n by (rule settles_nextState)
qed

lemma settles_pushCombined:
  assumes "settles notify" shows "settles (pushCombined notify)"
  unfolding settles_def
proof (intro allI impI)
  fix \<sigma> \<tau> assume adm: "admissible \<sigma>" and p: "pushCombined notify \<sigma> = Some \<tau>"
  let ?s = "debuggerSubject \<sigma>"
  let ?\<sigma>0 = "\<sigma>\<lparr>previousKey := Some ?s, combinedState := combinedState \<sigma> @ [?s]\<rparr>"
  show "settled \<tau>"
  proof (cases "previousKey \<sigma> = Some ?s")
    case True
    with p adm show ?thesis by (simp add: pushCombined_def admissible_def)
  next
    case False
    with p obtain \<sigma>1 where a: "attachPolicy notify ?s ?\<sigma>0 = Some \<sigma>1"
      and w: "webAudioEventPolicy notify ?s \<sigma>1 = Some \<tau>"
      by (auto simp: pushCombined_def Let_def split: bind_splits)
    have c0: "previousKey ?\<sigma>0 = Some (debuggerSubject ?\<sigma>0)" by simp
    from assms c0 a have d: "\<sigma>1 = ?\<sigma>0 \<or> settled \<sigma>1" by (rule settles_attachPolicy)
    then have c1: "previousKey \<sigma>1 = Some (debuggerSubject \<sigma>1)"
      by (auto simp: settled_def)
    from d have s1: "attachState ?s = IS_ACTIVE \<Longrightarrow> settled \<sigma>1"
      by (auto simp: settled_def)
    from assms c1 s1 w show ?thesis by (rule settles_webAudioEventPolicy)
  qed
qed

lemma settles_debuggerState: "settles (debuggerState n)"
proof (induction n)
  case 0
  show ?case by (simp add: settles_def)
next
  case (Suc n)
  then show ?case by (simp add: settles_pushCombined)
qed

lemma settled_step:
  assumes "settled \<sigma>" and "step n e \<sigma> = Some \<tau>"
  shows "settled \<tau>"
proof -
  note s = settles_debuggerState[of n]
  have next_ok: "\<And>\<sigma> c v \<tau>. settled \<sigma> \<Longrightarrow> nextState (debuggerState n) c v \<sigma> = Some \<tau> \<Longrightarrow> settled \<tau>"
  proof -
    fix \<sigma> c v \<tau> assume a: "settled \<sigma>" and b: "nextState (debuggerState n) c v \<sigma> = Some \<tau>"
    from a have "admissible (setValue c v \<sigma>)" by (rule settled_admissible) simp
    with s show "settled \<tau>" using b by (rule settles_nextState)
  qed
  have perm_ok: "\<And>\<sigma> v \<tau>. settled \<sigma> \<Longrightarrow> nextPermission (debuggerState n) v \<sigma> = Some \<tau> \<Longrightarrow> settled \<tau>"
  proof -
    fix \<sigma> v \<tau> assume a: "settled \<sigma>" and b: "nextPermission (debuggerState n) v \<sigma> = Some \<tau>"
    from a have "admissible (\<sigma>\<lparr>debuggerSubject := (debuggerSubject \<sigma>)\<lparr>permission := v\<rparr>\<rparr>)"
      by (rule settled_admissible) simp
    with s b show "settled \<tau>" by (auto simp: settles_def nextPermission_def)
  qed
  have count_ok: "\<And>\<sigma> c v \<tau>. settled \<sigma> \<Longrightarrow> nextCounter (debuggerState n) c v \<sigma> = Some \<tau> \<Longrightarrow> settled \<tau>"
  proof -
    fix \<sigma> c v \<tau> assume a: "settled \<sigma>" and b: "nextCounter (debuggerState n) c v \<sigma> = Some \<tau>"
    let ?\<sigma>' = "case c of
        attachInterest_subject \<Rightarrow> \<sigma>\<lparr>debuggerSubject := (debuggerSubject \<sigma>)\<lparr>attachInterest := v\<rparr>\<rparr>
      | webAudioEventInterest_subject \<Rightarrow>
          \<sigma>\<lparr>debuggerSubject := (debuggerSubject \<sigma>)\<lparr>webAudioEventInterest := v\<rparr>\<rparr>"
    from a have "admissible ?\<sigma>'" by (rule settled_admissible) (cases c; simp)
    moreover from b have "debuggerState n ?\<sigma>' = Some \<tau>"
      by (cases c) (simp_all add: nextCounter_def)
    ultimately show "settled \<tau>" using s by (auto simp: settles_def)
  qed
  have reject_ok: "\<And>\<sigma> \<tau>. settled \<sigma> \<Longrightarrow> reject (debuggerState n) \<sigma> = Some \<tau> \<Longrightarrow> settled \<tau>"
    by (auto simp: reject_def split: if_splits dest: perm_ok)
  show ?thesis
  proof (cases e)
    case GrantTemporary
    with assms show ?thesis by (auto simp: grantTemporary_def split: if_splits dest: perm_ok)
  next
    case Reject
    with assms show ?thesis by (auto dest: reject_ok)
  next
    case (Increment c)
    with assms show ?thesis by (auto simp: increment_def dest: count_ok)
  next
    case (Decrement c)
    with assms show ?thesis by (auto simp: decrement_def dest: count_ok)
  next
    case (OnDetach reason)
    with assms show ?thesis
      by (auto simp: onDebuggerDetach_def split: bind_splits if_splits dest: reject_ok next_ok)
  next
    case (SendCommand m)
    with assms obtain \<sigma>1 where "increment (debuggerState n) attachInterest_subject \<sigma> = Some \<sigma>1"
      and t: "\<tau> = \<sigma>1\<lparr>commands := commands \<sigma>1 @ [m]\<rparr>"
      by (auto simp: sendCommand_def split: bind_splits)
    with assms(1) have "settled \<sigma>1" by (auto simp: increment_def dest: count_ok)
    then show ?thesis unfolding t by (simp add: settled_def)
  next
    case (Subscribe k)
    have "debuggerSubject (subscribePipe k \<sigma>) = debuggerSubject \<sigma>"
      and "previousKey (subscribePipe k \<sigma>) = previousKey \<sigma>"
      by (simp_all add: subscribePipe_def)
    with assms(1) have "settled (subscribePipe k \<sigma>)" by (simp add: settled_def)
    with Subscribe assms(2) show ?thesis by simp
  next
    case (Unsubscribe k)
    show ?thesis
    proof (cases "k < length (commandPipes \<sigma>) \<and>
        (phase (commandPipes \<sigma> ! k) = Waiting \<or> phase (commandPipes \<sigma> ! k) = Running)")
      case False
      with Unsubscribe assms show ?thesis by (auto simp: unsubscribePipe_def)
    next
      case True
      let ?\<sigma>' = "\<sigma>\<lparr>commandPipes := (commandPipes \<sigma>)[k := (commandPipes \<sigma> ! k)\<lparr>phase := Unsubscribed\<rparr>]\<rparr>"
      from assms(1) have "settled ?\<sigma>'" by (simp add: settled_def)
      moreover from True Unsubscribe assms(2)
      have "decrement (debuggerState n) attachInterest_subject ?\<sigma>' = Some \<tau>"
        by (simp add: unsubscribePipe_def)
      ultimately show ?thesis by (auto simp: decrement_def dest: count_ok)
    qed
  next
    case (Callback i r)
    let ?\<sigma>' = "\<sigma>\<lparr>pendingCalls := removeAt i (pendingCalls \<sigma>)\<rparr>"
    from assms(1) have s': "settled ?\<sigma>'" by (simp add: settled_def)
    show ?thesis
    proof (cases "i < length (pendingCalls \<sigma>)")
      case False
      with Callback assms show ?thesis by (simp add: callback_def)
    next
      case True
      show ?thesis
      proof (cases "pendingCalls \<sigma> ! i")
        case (TransitionCall c d)
        with True Callback assms(2)
        have "settleTransition (debuggerState n) c d r ?\<sigma>' = Some \<tau>"
          by (simp add: callback_def)
        then have "\<tau> = ?\<sigma>' \<or> (\<exists>v. nextState (debuggerState n) c v ?\<sigma>' = Some \<tau>) \<or>
            (\<exists>x. \<tau> = ?\<sigma>'\<lparr>unhandledErrors := x\<rparr>)"
          by (auto simp: settleTransition_def split: option.splits sum.splits)
        with s' show ?thesis by (auto dest: next_ok[OF s'] simp: settled_def)
      next
        case (CommandCall k)
        with True Callback assms(2)
        have c: "settleCommand (debuggerState n) k r ?\<sigma>' = Some \<tau>"
          by (simp add: callback_def)
        show ?thesis
        proof (cases "k < length (commandPipes ?\<sigma>') \<and> phase (commandPipes ?\<sigma>' ! k) = Running")
          case False
          with c s' show ?thesis by (auto simp: settleCommand_def)
        next
          case True
          let ?\<sigma>'' = "?\<sigma>'\<lparr>commandPipes := (commandPipes ?\<sigma>')[k := (commandPipes ?\<sigma>' ! k)
                   \<lparr>phase := (case r of None \<Rightarrow> Completed | Some err \<Rightarrow> Errored)\<rparr>]\<rparr>"
          from s' have "settled ?\<sigma>''" by (simp add: settled_def)
          moreover from True c have "decrement (debuggerState n) attachInterest_subject ?\<sigma>'' = Some \<tau>"
            by (simp add: settleCommand_def)
          ultimately show ?thesis by (auto simp: decrement_def dest: count_ok)
        qed
      qed
    qed
  qed
qed

lemma settled_run: "settled \<sigma> \<Longrightarrow> run n es \<sigma> = Some \<tau> \<Longrightarrow> settled \<tau>"
proof (induction es arbitrary: \<sigma>)
  case Nil
  then show ?case by simp
next
  case (Cons e es)
  from Cons.prems(2) obtain \<sigma>' where s: "step n e \<sigma> = Some \<sigma>'" and r: "run n es \<sigma>' = Some \<tau>"
    by (auto split: bind_splits)
  from Cons.prems(1) s have "settled \<sigma>'" by (rule settled_step)
  then show ?case using r by (rule Cons.IH)
qed

lemma settled_initial: "settled initial"
  by (simp add: settled_def initial_def fresh_def)

text \<open>
  C1, as the code has it. Whenever the controller is at rest, that is, after the
  constructor and after each event of any sequence (grants and rejections, increments
  and decrements of either interest, detachments from outside, commands, completions
  and failures of the \<open>chrome\<close> calls in flight) has been handled to the end,
  \<open>webAudioEventState$\<close> is \<open>IS_ACTIVE\<close> only if \<open>attachState$\<close> is \<open>IS_ACTIVE\<close>;
  indeed the event subject is \<open>IS_INACTIVE\<close> whenever the attachment is not active.
  With a budget of four pushes every sequence is handled. Nothing is said here about
  the combinations that the subjects hold while an event is being handled.
\<close>

theorem event_stream_active_only_while_attached:
  "(\<forall>\<sigma>. afterEvents n es = Some \<sigma> \<longrightarrow>
      (webAudioEventState (debuggerSubject \<sigma>) = IS_ACTIVE \<longrightarrow>
         attachState (debuggerSubject \<sigma>) = IS_ACTIVE) \<and>
      (attachState (debuggerSubject \<sigma>) = IS_ACTIVE \<or>
         webAudioEventState (debuggerSubject \<sigma>) = IS_INACTIVE)) \<and>
   (4 \<le> n \<longrightarrow> (\<exists>\<sigma>. afterEvents n es = Some \<sigma>))"
proof (intro conjI allI impI)
  fix \<sigma> assume a: "afterEvents n es = Some \<sigma>"
  then have "run n es initial = Some \<sigma>" by (simp add: afterEvents_def constructor_initial)
  with settled_initial have s: "settled \<sigma>" by (rule settled_run)
  then show "attachState (debuggerSubject \<sigma>) = IS_ACTIVE \<or>
         webAudioEventState (debuggerSubject \<sigma>) = IS_INACTIVE"
    by (simp add: settled_def)
  assume "webAudioEventState (debuggerSubject \<sigma>) = IS_ACTIVE"
  with s show "attachState (debuggerSubject \<sigma>) = IS_ACTIVE" by (auto simp: settled_def)
next
  assume "4 \<le> n"
  then show "\<exists>\<sigma>. afterEvents n es = Some \<sigma>"
    by (simp add: afterEvents_def constructor_initial run_returns)
qed

text \<open>
  An instance: permission is granted, the attachment is wanted and attaches, events are
  wanted and get enabled. Both subjects are active.
\<close>

theorem event_stream_active_only_while_attached_witness:
  "\<exists>\<sigma>. afterEvents 4 [GrantTemporary, Increment attachInterest_subject, Callback 0 None,
                        Increment webAudioEventInterest_subject, Callback 0 None] = Some \<sigma> \<and>
        webAudioEventState (debuggerSubject \<sigma>) = IS_ACTIVE \<and>
        attachState (debuggerSubject \<sigma>) = IS_ACTIVE"
proof -
  let ?es = "[GrantTemporary, Increment attachInterest_subject, Callback 0 None,
              Increment webAudioEventInterest_subject, Callback 0 None]"
  have e: "map_option (webAudioEventState \<circ> debuggerSubject) (afterEvents 4 ?es) = Some IS_ACTIVE"
    by code_simp
  from event_stream_active_only_while_attached[of 4 ?es]
  obtain \<sigma> where s: "afterEvents 4 ?es = Some \<sigma>"
    and i: "webAudioEventState (debuggerSubject \<sigma>) = IS_ACTIVE \<longrightarrow>
         attachState (debuggerSubject \<sigma>) = IS_ACTIVE"
    by auto
  from e s have "webAudioEventState (debuggerSubject \<sigma>) = IS_ACTIVE" by simp
  with s i show ?thesis by blast
qed

text \<open>
  The claim fails for the combinations that the two subjects hold while an event is
  being handled, each of which \<open>combinedState$\<close> emits. First run: both subjects become
  active; eight values are emitted, none against the claim. Second run: the attach
  interest is then taken away; the attachment policy pushes \<open>DEACTIVATING\<close> while the
  event subject is \<open>IS_ACTIVE\<close>. Third run: the debugger is instead detached from
  outside; \<open>IS_INACTIVE\<close> is pushed, and the attachment policy activates again, while
  the event subject is \<open>IS_ACTIVE\<close>. Fourth run: the events are no longer wanted, the
  user cancels the debugging while \<open>WebAudio.disable\<close> is in flight, and that call
  fails; its error handler finds the event subject forced to \<open>IS_INACTIVE\<close> and
  pushes \<open>IS_ACTIVE\<close> while the attachment is \<open>IS_INACTIVE\<close>. In each run the event
  policy answers by pushing \<open>IS_INACTIVE\<close> before the event handler returns. The
  lists are the pairs of \<open>attachState\<close> and \<open>webAudioEventState\<close> in the values
  emitted, after the first eight in the last three runs.
\<close>

theorem event_stream_active_while_not_attached_counterexample:
  "map_option (map combination \<circ> combinedState)
     (afterEvents 4 [GrantTemporary, Increment attachInterest_subject, Callback 0 None,
        Increment webAudioEventInterest_subject, Callback 0 None])
     = Some [(IS_INACTIVE, IS_INACTIVE), (IS_INACTIVE, IS_INACTIVE), (IS_INACTIVE, IS_INACTIVE),
             (ACTIVATING, IS_INACTIVE), (IS_ACTIVE, IS_INACTIVE), (IS_ACTIVE, IS_INACTIVE),
             (IS_ACTIVE, ACTIVATING), (IS_ACTIVE, IS_ACTIVE)] \<and>
   map_option (drop 8 \<circ> map combination \<circ> combinedState)
     (afterEvents 4 [GrantTemporary, Increment attachInterest_subject, Callback 0 None,
        Increment webAudioEventInterest_subject, Callback 0 None,
        Decrement attachInterest_subject])
     = Some [(IS_ACTIVE, IS_ACTIVE), (DEACTIVATING, IS_ACTIVE), (DEACTIVATING, IS_INACTIVE),
             (DEACTIVATING, ACTIVATING), (DEACTIVATING, IS_INACTIVE)] \<and>
   map_option (drop 8 \<circ> map combination \<circ> combinedState)
     (afterEvents 4 [GrantTemporary, Increment attachInterest_subject, Callback 0 None,
        Increment webAudioEventInterest_subject, Callback 0 None,
        OnDetach ''target_closed''])
     = Some [(IS_INACTIVE, IS_ACTIVE), (ACTIVATING, IS_ACTIVE), (ACTIVATING, IS_INACTIVE)] \<and>
   map_option (drop 8 \<circ> map combination \<circ> combinedState)
     (afterEvents 4 [GrantTemporary, Increment attachInterest_subject, Callback 0 None,
        Increment webAudioEventInterest_subject, Callback 0 None,
        Decrement webAudioEventInterest_subject, OnDetach ''canceled_by_user'',
        Callback 0 (Some (LastError (Some ''Debugger is not attached to the tab with id: 7.'')))])
     = Some [(IS_ACTIVE, IS_ACTIVE), (IS_ACTIVE, DEACTIVATING), (IS_ACTIVE, DEACTIVATING),
             (DEACTIVATING, DEACTIVATING), (DEACTIVATING, IS_INACTIVE), (IS_INACTIVE, IS_INACTIVE),
             (IS_INACTIVE, IS_ACTIVE), (IS_INACTIVE, IS_INACTIVE)]"
  by code_simp

section \<open>Completion and failure of a transition\<close>

lemma nextState_attachState:
  assumes "nextState (debuggerState n) attachState_subject v \<sigma> = Some \<tau>"
  shows "attachState (debuggerSubject \<tau>) = v \<or>
         attachState (debuggerSubject \<tau>) =
           attachOutcome ((debuggerSubject \<sigma>)\<lparr>attachState := v\<rparr>)"
proof -
  let ?\<sigma>' = "setValue attachState_subject v \<sigma>"
  from assms obtain \<sigma>'' where n: "debuggerState n ?\<sigma>' = Some \<sigma>''"
    and t: "\<tau> = commandObservers v \<sigma>''"
    by (auto simp: nextState_def split: bind_splits)
  have "attachState (debuggerSubject \<tau>) = attachState (debuggerSubject \<sigma>'')"
    unfolding t by (simp add: commandObservers_def)
  with debuggerState_attachState[OF n] show ?thesis
    by (auto simp: setValue_def split: if_splits)
qed

text \<open>
  C6. When the action of a transition fails with an error whose message starts with
  \<open>Another debugger is already attached\<close> while the subject still holds the
  intermediate state, the selector of \<open>catchError\<close> returns \<open>of(successState)\<close>: the
  failure is handled exactly as the completion of the action is, for the handler, for
  the subscriber of the transition and for the callback of the pending call. For an
  activation the value pushed is \<open>IS_ACTIVE\<close>, not the error state.
\<close>

theorem already_attached_counts_as_success:
  assumes "message err = Some m"
    and "startsWith m ''Another debugger is already attached''"
    and "valueOf c \<sigma> = intermediateState d"
  shows "onError d (valueOf c \<sigma>) err = Inr (Some (successState d)) \<and>
         onError d (valueOf c \<sigma>) err = Inr (onComplete d (valueOf c \<sigma>)) \<and>
         settleTransition notify c d (Some err) \<sigma> = nextState notify c (successState d) \<sigma> \<and>
         settleTransition notify c d (Some err) \<sigma> = settleTransition notify c d None \<sigma> \<and>
         (i < length (pendingCalls \<sigma>) \<and> pendingCalls \<sigma> ! i = TransitionCall c d \<longrightarrow>
            callback notify i (Some err) \<sigma> = callback notify i None \<sigma>) \<and>
         successState (activateTransition c) = IS_ACTIVE"
proof -
  have v: "valueOf c (\<sigma>\<lparr>pendingCalls := removeAt i (pendingCalls \<sigma>)\<rparr>) = valueOf c \<sigma>"
    by (cases c) (simp_all add: valueOf_def)
  from assms show ?thesis
    by (simp add: onError_def onComplete_def settleTransition_def callback_def v
        activateTransition_def)
qed

text \<open>
  An instance: \<open>chrome.debugger.attach\<close> fails because another debugger holds the tab
  while \<open>attachState$\<close> is \<open>ACTIVATING\<close>; the subject goes to \<open>IS_ACTIVE\<close>, and the
  callback with the error does what the callback without an error does.
\<close>

theorem already_attached_counts_as_success_witness:
  "map_option (attachState \<circ> debuggerSubject)
     (afterEvents 4 [GrantTemporary, Increment attachInterest_subject,
        Callback 0 (Some (LastError (Some ''Another debugger is already attached to the tab with id: 7.'')))])
     = Some IS_ACTIVE \<and>
   onError (activateTransition attachState_subject) ACTIVATING
     (LastError (Some ''Another debugger is already attached to the tab with id: 7.''))
     = Inr (Some IS_ACTIVE) \<and>
   callback (debuggerState 4) 0
     (Some (LastError (Some ''Another debugger is already attached to the tab with id: 7.'')))
     (initial\<lparr>debuggerSubject :=
              \<lparr>permission = TEMPORARY, attachInterest = 1, attachState = ACTIVATING,
                webAudioEventInterest = 0, webAudioEventState = IS_INACTIVE\<rparr>,
         pendingCalls := [TransitionCall attachState_subject (activateTransition attachState_subject)]\<rparr>)
   = callback (debuggerState 4) 0 None
     (initial\<lparr>debuggerSubject :=
              \<lparr>permission = TEMPORARY, attachInterest = 1, attachState = ACTIVATING,
                webAudioEventInterest = 0, webAudioEventState = IS_INACTIVE\<rparr>,
         pendingCalls := [TransitionCall attachState_subject (activateTransition attachState_subject)]\<rparr>)"
proof -
  let ?err = "LastError (Some ''Another debugger is already attached to the tab with id: 7.'')"
  let ?d = "activateTransition attachState_subject"
  let ?\<sigma> = "initial\<lparr>debuggerSubject :=
              \<lparr>permission = TEMPORARY, attachInterest = 1, attachState = ACTIVATING,
                webAudioEventInterest = 0, webAudioEventState = IS_INACTIVE\<rparr>,
         pendingCalls := [TransitionCall attachState_subject ?d]\<rparr>"
  have 1: "message ?err = Some ''Another debugger is already attached to the tab with id: 7.''"
    by simp
  have 2: "startsWith ''Another debugger is already attached to the tab with id: 7.''
             ''Another debugger is already attached''"
    by (simp add: startsWith_def)
  have 3: "valueOf attachState_subject ?\<sigma> = intermediateState ?d"
    by (simp add: valueOf_def activateTransition_def)
  note T = already_attached_counts_as_success[OF 1 2 3, of "debuggerState 4" 0]
  from T have "onError ?d (valueOf attachState_subject ?\<sigma>) ?err = Inr (Some (successState ?d))"
    by (rule conjunct1)
  then have A: "onError ?d ACTIVATING ?err = Inr (Some IS_ACTIVE)"
    by (simp add: valueOf_def activateTransition_def)
  have "0 < length (pendingCalls ?\<sigma>) \<and> pendingCalls ?\<sigma> ! 0 = TransitionCall attachState_subject ?d"
    by simp
  with T have B: "callback (debuggerState 4) 0 (Some ?err) ?\<sigma> = callback (debuggerState 4) 0 None ?\<sigma>"
    by blast
  have C: "map_option (attachState \<circ> debuggerSubject)
     (afterEvents 4 [GrantTemporary, Increment attachInterest_subject, Callback 0 (Some ?err)])
     = Some IS_ACTIVE"
    by code_simp
  from C A B show ?thesis by (intro conjI)
qed




text \<open>
  C3, as the code has it. The \<open>defer\<close> that runs at the completion of the action
  compares the value of the subject at that moment with the intermediate state of the
  transition: the completion pushes the success state when the two are equal and does
  nothing otherwise. A completion that finds the subject in \<open>IS_INACTIVE\<close> (forced there,
  and not activated again since) only removes the pending call.
\<close>

theorem completion_guard_compares_values:
  "settleTransition notify c d None \<sigma> =
     (if valueOf c \<sigma> = intermediateState d then nextState notify c (successState d) \<sigma>
      else Some \<sigma>) \<and>
   (valueOf c \<sigma> \<noteq> ACTIVATING \<longrightarrow>
      settleTransition notify c (activateTransition c) None \<sigma> = Some \<sigma>) \<and>
   (i < length (pendingCalls \<sigma>) \<and> pendingCalls \<sigma> ! i = TransitionCall c (activateTransition c) \<and>
    valueOf c \<sigma> \<noteq> ACTIVATING \<longrightarrow>
      callback notify i None \<sigma> = Some (\<sigma>\<lparr>pendingCalls := removeAt i (pendingCalls \<sigma>)\<rparr>))"
proof -
  have v: "valueOf c (\<sigma>\<lparr>pendingCalls := removeAt i (pendingCalls \<sigma>)\<rparr>) = valueOf c \<sigma>"
    by (cases c) (simp_all add: valueOf_def)
  show ?thesis
    by (simp add: settleTransition_def onComplete_def activateTransition_def callback_def v)
qed

text \<open>
  An instance: the attachment was forced to \<open>IS_INACTIVE\<close> while attaching and the
  interest is gone; the completion of the attach call changes nothing but the list of
  pending calls.
\<close>

theorem completion_guard_compares_values_witness:
  "map_option (attachState \<circ> debuggerSubject)
     (afterEvents 4 [GrantTemporary, Increment attachInterest_subject,
        Decrement attachInterest_subject, OnDetach ''target_closed'']) = Some IS_INACTIVE \<and>
   map_option (attachState \<circ> debuggerSubject)
     (afterEvents 4 [GrantTemporary, Increment attachInterest_subject,
        Decrement attachInterest_subject, OnDetach ''target_closed'', Callback 0 None])
     = Some IS_INACTIVE \<and>
   callback (debuggerState 4) 0 None
     (initial\<lparr>pendingCalls := [TransitionCall attachState_subject (activateTransition attachState_subject)]\<rparr>)
     = Some (initial\<lparr>pendingCalls := []\<rparr>)"
proof -
  let ?\<sigma> = "initial\<lparr>pendingCalls := [TransitionCall attachState_subject (activateTransition attachState_subject)]\<rparr>"
  have "0 < length (pendingCalls ?\<sigma>) \<and>
        pendingCalls ?\<sigma> ! 0 = TransitionCall attachState_subject (activateTransition attachState_subject) \<and>
        valueOf attachState_subject ?\<sigma> \<noteq> ACTIVATING"
    by (simp add: valueOf_def initial_def fresh_def)
  with completion_guard_compares_values[of "debuggerState 4" attachState_subject _ ?\<sigma> 0]
  have "callback (debuggerState 4) 0 None ?\<sigma> = Some (?\<sigma>\<lparr>pendingCalls := removeAt 0 (pendingCalls ?\<sigma>)\<rparr>)"
    by blast
  then have "callback (debuggerState 4) 0 None ?\<sigma> = Some (initial\<lparr>pendingCalls := []\<rparr>)"
    by (simp add: removeAt_def)
  moreover have "map_option (attachState \<circ> debuggerSubject)
     (afterEvents 4 [GrantTemporary, Increment attachInterest_subject,
        Decrement attachInterest_subject, OnDetach ''target_closed'']) = Some IS_INACTIVE"
    by code_simp
  moreover have "map_option (attachState \<circ> debuggerSubject)
     (afterEvents 4 [GrantTemporary, Increment attachInterest_subject,
        Decrement attachInterest_subject, OnDetach ''target_closed'', Callback 0 None])
     = Some IS_INACTIVE"
    by code_simp
  ultimately show ?thesis by blast
qed

text \<open>
  The claim that a completion after a forced \<open>IS_INACTIVE\<close> never sets \<open>IS_ACTIVE\<close> fails
  when the subject is \<open>ACTIVATING\<close> again at the completion. First run: the attachment
  is forced to \<open>IS_INACTIVE\<close> while the first attach call is in flight and rests there;
  a new interest starts a second activation; the completion of the first call then sets
  \<open>IS_ACTIVE\<close> while the second call is still in flight. Second run: with the interest
  still present, the policy starts the second activation inside the reaction to the
  forced value itself.
\<close>

theorem stale_completion_sets_active_counterexample:
  "map_option (\<lambda>\<sigma>. (attachState (debuggerSubject \<sigma>), pendingCalls \<sigma>))
     (afterEvents 4 [GrantTemporary, Increment attachInterest_subject,
        Decrement attachInterest_subject, OnDetach ''target_closed''])
     = Some (IS_INACTIVE,
         [TransitionCall attachState_subject (activateTransition attachState_subject)]) \<and>
   map_option (\<lambda>\<sigma>. (attachState (debuggerSubject \<sigma>), pendingCalls \<sigma>))
     (afterEvents 4 [GrantTemporary, Increment attachInterest_subject,
        Decrement attachInterest_subject, OnDetach ''target_closed'',
        Increment attachInterest_subject])
     = Some (ACTIVATING,
         [TransitionCall attachState_subject (activateTransition attachState_subject),
          TransitionCall attachState_subject (activateTransition attachState_subject)]) \<and>
   map_option (\<lambda>\<sigma>. (attachState (debuggerSubject \<sigma>), pendingCalls \<sigma>))
     (afterEvents 4 [GrantTemporary, Increment attachInterest_subject,
        Decrement attachInterest_subject, OnDetach ''target_closed'',
        Increment attachInterest_subject, Callback 0 None])
     = Some (IS_ACTIVE,
         [TransitionCall attachState_subject (activateTransition attachState_subject)]) \<and>
   map_option (\<lambda>\<sigma>. (attachState (debuggerSubject \<sigma>), pendingCalls \<sigma>))
     (afterEvents 4 [GrantTemporary, Increment attachInterest_subject])
     = Some (ACTIVATING,
         [TransitionCall attachState_subject (activateTransition attachState_subject)]) \<and>
   map_option (\<lambda>\<sigma>. (attachState (debuggerSubject \<sigma>), pendingCalls \<sigma>))
     (afterEvents 4 [GrantTemporary, Increment attachInterest_subject,
        OnDetach ''target_closed'', Callback 0 None])
     = Some (IS_ACTIVE,
         [TransitionCall attachState_subject (activateTransition attachState_subject)])"
  by code_simp




section \<open>Commands and their pipes\<close>

lemma phase_startPipe: "phase (startPipe p) = (if phase p = Waiting then Running else phase p)"
  by (simp add: startPipe_def)

lemma command_startPipe: "command (startPipe p) = command p"
  by (simp add: startPipe_def)

lemma waitingPipes_iff:
  "k \<in> set (waitingPipes ps) \<longleftrightarrow> k < length ps \<and> phase (ps ! k) = Waiting"
  by (auto simp: waitingPipes_def)

lemma sorted_waitingPipes: "sorted_wrt (<) (waitingPipes ps)"
  unfolding waitingPipes_def by (rule sorted_wrt_filter) (rule sorted_wrt_upt)

text \<open>
  The end of a pipe: \<open>finalize\<close> runs once, by the callback of the call of a running pipe
  or by \<open>unsubscribe()\<close> on a pipe that has not ended.
\<close>

lemma endPipe:
  assumes "decrement (debuggerState n) attachInterest_subject
             (\<sigma>\<lparr>commandPipes := (commandPipes \<sigma>)[k := (commandPipes \<sigma> ! k)\<lparr>phase := ph\<rparr>]\<rparr>) = Some \<tau>"
  shows "attachInterest (debuggerSubject \<tau>) = attachInterest (debuggerSubject \<sigma>) - 1"
    and "commandPipes \<tau> = (commandPipes \<sigma>)[k := (commandPipes \<sigma> ! k)\<lparr>phase := ph\<rparr>]"
    and "commands \<tau> = commands \<sigma>"
    and "callsOf (pendingCalls \<tau>) = callsOf (pendingCalls \<sigma>)"
proof -
  let ?\<sigma>' = "\<sigma>\<lparr>commandPipes := (commandPipes \<sigma>)[k := (commandPipes \<sigma> ! k)\<lparr>phase := ph\<rparr>]\<rparr>"
  from assms have d: "nextCounter (debuggerState n) attachInterest_subject
      (counterValue attachInterest_subject ?\<sigma>' - 1) ?\<sigma>' = Some \<tau>"
    by (simp add: decrement_def)
  from nextCounter_frame(2)[OF d]
  show "attachInterest (debuggerSubject \<tau>) = attachInterest (debuggerSubject \<sigma>) - 1"
    by (simp add: counterValue_def)
  from nextCounter_frame(5)[OF d]
  show "commandPipes \<tau> = (commandPipes \<sigma>)[k := (commandPipes \<sigma> ! k)\<lparr>phase := ph\<rparr>]"
    by simp
  from nextCounter_frame(7)[OF d] show "commands \<tau> = commands \<sigma>" by simp
  from nextCounter_frame(6)[OF d] show "callsOf (pendingCalls \<tau>) = callsOf (pendingCalls \<sigma>)"
    by simp
qed

lemma sendCommand_issues:
  assumes "sendCommand (debuggerState n) m \<sigma> = Some \<tau>"
  shows "attachInterest (debuggerSubject \<tau>) = attachInterest (debuggerSubject \<sigma>) + 1"
    and "commands \<tau> = commands \<sigma> @ [m]"
    and "commandPipes \<tau> = commandPipes \<sigma>"
    and "callsOf (pendingCalls \<tau>) = callsOf (pendingCalls \<sigma>)"
proof -
  from assms obtain \<sigma>1 where
    i: "nextCounter (debuggerState n) attachInterest_subject
          (counterValue attachInterest_subject \<sigma> + 1) \<sigma> = Some \<sigma>1"
    and t: "\<tau> = \<sigma>1\<lparr>commands := commands \<sigma>1 @ [m]\<rparr>"
    by (auto simp: sendCommand_def increment_def split: bind_splits)
  from nextCounter_frame(2)[OF i] t
  show "attachInterest (debuggerSubject \<tau>) = attachInterest (debuggerSubject \<sigma>) + 1"
    by (simp add: counterValue_def)
  from nextCounter_frame(7)[OF i] t show "commands \<tau> = commands \<sigma> @ [m]" by simp
  from nextCounter_frame(5)[OF i] t show "commandPipes \<tau> = commandPipes \<sigma>" by simp
  from nextCounter_frame(6)[OF i] t show "callsOf (pendingCalls \<tau>) = callsOf (pendingCalls \<sigma>)"
    by simp
qed

lemma subscribePipe_frame:
  "debuggerSubject (subscribePipe k \<sigma>) = debuggerSubject \<sigma>"
  "commands (subscribePipe k \<sigma>) = commands \<sigma>"
  by (simp_all add: subscribePipe_def)

text \<open>
  No event removes a pipe or moves it: the position of a pipe in \<open>commandPipes\<close> is the
  position of its \<open>subscribe()\<close> among all the calls of \<open>subscribe()\<close>.
\<close>

lemma commandPipes_settleTransition:
  assumes "settleTransition (debuggerState n) c d r \<sigma> = Some \<tau>"
  shows "commandPipes \<tau> = commandPipes \<sigma> \<or> commandPipes \<tau> = map startPipe (commandPipes \<sigma>)"
proof -
  from assms have "\<tau> = \<sigma> \<or> (\<exists>v. nextState (debuggerState n) c v \<sigma> = Some \<tau>) \<or>
        (\<exists>x. \<tau> = \<sigma>\<lparr>unhandledErrors := x\<rparr>)"
    by (auto simp: settleTransition_def split: option.splits sum.splits)
  then consider "\<tau> = \<sigma>" | v where "nextState (debuggerState n) c v \<sigma> = Some \<tau>"
    | x where "\<tau> = \<sigma>\<lparr>unhandledErrors := x\<rparr>"
    by blast
  then show ?thesis
  proof cases
    case 1
    then show ?thesis by simp
  next
    case 2
    from nextState_frame(5)[OF this] show ?thesis by (simp split: if_splits)
  next
    case 3
    then show ?thesis by simp
  qed
qed

lemma commandPipes_step_shape:
  assumes "step n e \<sigma> = Some \<tau>"
  shows "commandPipes \<tau> = commandPipes \<sigma> \<or>
         commandPipes \<tau> = map startPipe (commandPipes \<sigma>) \<or>
         (\<exists>j ph. j < length (commandPipes \<sigma>) \<and>
            commandPipes \<tau> = (commandPipes \<sigma>)[j := (commandPipes \<sigma> ! j)\<lparr>phase := ph\<rparr>]) \<or>
         (\<exists>p. commandPipes \<tau> = commandPipes \<sigma> @ [p])"
proof (cases e)
  case GrantTemporary
  with assms have "commandPipes \<tau> = commandPipes \<sigma>"
    by (auto simp: grantTemporary_def split: if_splits dest: nextPermission_frame(5))
  then show ?thesis by simp
next
  case Reject
  with assms have "commandPipes \<tau> = commandPipes \<sigma>"
    by (auto simp: reject_def split: if_splits dest: nextPermission_frame(5))
  then show ?thesis by simp
next
  case (Increment c)
  with assms have "commandPipes \<tau> = commandPipes \<sigma>"
    by (auto simp: increment_def dest: nextCounter_frame(5))
  then show ?thesis by simp
next
  case (Decrement c)
  with assms have "commandPipes \<tau> = commandPipes \<sigma>"
    by (auto simp: decrement_def dest: nextCounter_frame(5))
  then show ?thesis by simp
next
  case (OnDetach reason)
  with assms obtain \<sigma>1 where
    r: "(if reason = ''canceled_by_user'' then reject (debuggerState n) \<sigma> else Some \<sigma>) = Some \<sigma>1"
    and f: "nextState (debuggerState n) attachState_subject IS_INACTIVE \<sigma>1 = Some \<tau>"
    by (auto simp: onDebuggerDetach_def split: bind_splits)
  from r have "commandPipes \<sigma>1 = commandPipes \<sigma>"
    by (auto simp: reject_def split: if_splits dest: nextPermission_frame(5))
  with nextState_frame(5)[OF f] show ?thesis by simp
next
  case (SendCommand m)
  with assms have "commandPipes \<tau> = commandPipes \<sigma>" by (auto dest: sendCommand_issues(3))
  then show ?thesis by simp
next
  case (Subscribe k)
  with assms have "\<tau> = subscribePipe k \<sigma>" by simp
  then show ?thesis by (auto simp: subscribePipe_def)
next
  case (Unsubscribe k)
  show ?thesis
  proof (cases "k < length (commandPipes \<sigma>) \<and>
      (phase (commandPipes \<sigma> ! k) = Waiting \<or> phase (commandPipes \<sigma> ! k) = Running)")
    case True
    with Unsubscribe assms have "decrement (debuggerState n) attachInterest_subject
        (\<sigma>\<lparr>commandPipes := (commandPipes \<sigma>)[k := (commandPipes \<sigma> ! k)\<lparr>phase := Unsubscribed\<rparr>]\<rparr>) = Some \<tau>"
      by (simp add: unsubscribePipe_def)
    from endPipe(2)[OF this] True show ?thesis by blast
  next
    case False
    with Unsubscribe assms have "\<tau> = \<sigma>" by (auto simp: unsubscribePipe_def)
    then show ?thesis by simp
  qed
next
  case (Callback i r)
  let ?\<sigma>' = "\<sigma>\<lparr>pendingCalls := removeAt i (pendingCalls \<sigma>)\<rparr>"
  show ?thesis
  proof (cases "i < length (pendingCalls \<sigma>)")
    case False
    with Callback assms show ?thesis by (simp add: callback_def)
  next
    case True
    show ?thesis
    proof (cases "pendingCalls \<sigma> ! i")
      case (TransitionCall c d)
      with True Callback assms have "settleTransition (debuggerState n) c d r ?\<sigma>' = Some \<tau>"
        by (simp add: callback_def)
      from commandPipes_settleTransition[OF this] show ?thesis by auto
    next
      case (CommandCall k)
      with True Callback assms have c: "settleCommand (debuggerState n) k r ?\<sigma>' = Some \<tau>"
        by (simp add: callback_def)
      show ?thesis
      proof (cases "k < length (commandPipes \<sigma>) \<and> phase (commandPipes \<sigma> ! k) = Running")
        case True
        with c have "decrement (debuggerState n) attachInterest_subject
          (?\<sigma>'\<lparr>commandPipes := (commandPipes ?\<sigma>')[k := (commandPipes ?\<sigma>' ! k)
             \<lparr>phase := (case r of None \<Rightarrow> Completed | Some err \<Rightarrow> Errored)\<rparr>]\<rparr>) = Some \<tau>"
          by (simp add: settleCommand_def)
        from endPipe(2)[OF this] True show ?thesis by auto
      next
        case False
        with c have "\<tau> = ?\<sigma>'" by (auto simp: settleCommand_def)
        then show ?thesis by simp
      qed
    qed
  qed
qed

lemma commandPipes_step:
  assumes "step n e \<sigma> = Some \<tau>" and "k < length (commandPipes \<sigma>)"
  shows "k < length (commandPipes \<tau>)"
    and "command (commandPipes \<tau> ! k) = command (commandPipes \<sigma> ! k)"
proof -
  from commandPipes_step_shape[OF assms(1)]
  consider "commandPipes \<tau> = commandPipes \<sigma>"
    | "commandPipes \<tau> = map startPipe (commandPipes \<sigma>)"
    | j ph where "j < length (commandPipes \<sigma>)"
        "commandPipes \<tau> = (commandPipes \<sigma>)[j := (commandPipes \<sigma> ! j)\<lparr>phase := ph\<rparr>]"
    | p where "commandPipes \<tau> = commandPipes \<sigma> @ [p]"
    by blast
  then have "k < length (commandPipes \<tau>) \<and>
      command (commandPipes \<tau> ! k) = command (commandPipes \<sigma> ! k)"
  proof cases
    case 1
    with assms(2) show ?thesis by simp
  next
    case 2
    with assms(2) show ?thesis by (simp add: command_startPipe)
  next
    case 3
    with assms(2) show ?thesis by (simp add: nth_list_update)
  next
    case 4
    with assms(2) show ?thesis by (simp add: nth_append)
  qed
  then show "k < length (commandPipes \<tau>)"
    and "command (commandPipes \<tau> ! k) = command (commandPipes \<sigma> ! k)"
    by simp_all
qed

section \<open>Every waiting command runs\<close>

text \<open>
  C7, as the code has it. Every \<open>subscribe()\<close> on an observable returned by
  \<open>sendCommand\<close> builds a pipe with a \<open>filter\<close>, a \<open>take(1)\<close> and an \<open>exhaustMap\<close> of
  its own, which becomes the last observer of \<open>attachState$\<close>; no event removes a
  pipe or moves it, so that the pipes stand in \<open>commandPipes\<close> in the order in which
  they subscribed. When \<open>IS_ACTIVE\<close> is pushed into \<open>attachState$\<close>, every pipe that
  is waiting makes its own \<open>chrome.debugger.sendCommand\<close> call: the command calls in
  flight afterwards are those that were in flight before, followed by one call per
  waiting pipe, in the order in which the pipes subscribed (ascending position in
  \<open>commandPipes\<close>), whatever the order of the calls of \<open>sendCommand\<close> was. No waiting
  pipe is dropped, and the other pipes are left as they are. With a budget of four
  pushes the push is handled.
\<close>

theorem every_waiting_command_runs:
  "(\<forall>\<tau>. j < length (commands \<sigma>) \<longrightarrow> step n (Subscribe j) \<sigma> = Some \<tau> \<longrightarrow>
      commandPipes \<tau> = commandPipes \<sigma> @
        [\<lparr>command = commands \<sigma> ! j,
          phase = (if attachState (debuggerSubject \<sigma>) = IS_ACTIVE then Running else Waiting)\<rparr>]) \<and>
   (\<forall>\<tau>. step n e \<sigma> = Some \<tau> \<longrightarrow>
      (\<forall>k < length (commandPipes \<sigma>).
         k < length (commandPipes \<tau>) \<and>
         command (commandPipes \<tau> ! k) = command (commandPipes \<sigma> ! k))) \<and>
   (\<forall>\<tau>. nextState (debuggerState n) attachState_subject IS_ACTIVE \<sigma> = Some \<tau> \<longrightarrow>
      commandPipes \<tau> = map startPipe (commandPipes \<sigma>) \<and>
      callsOf (pendingCalls \<tau>) = callsOf (pendingCalls \<sigma>) @ waitingPipes (commandPipes \<sigma>) \<and>
      (\<forall>k < length (commandPipes \<sigma>).
         command (commandPipes \<tau> ! k) = command (commandPipes \<sigma> ! k) \<and>
         (phase (commandPipes \<sigma> ! k) = Waiting \<longrightarrow>
            phase (commandPipes \<tau> ! k) = Running \<and> k \<in> set (callsOf (pendingCalls \<tau>))) \<and>
         (phase (commandPipes \<sigma> ! k) \<noteq> Waiting \<longrightarrow>
            phase (commandPipes \<tau> ! k) = phase (commandPipes \<sigma> ! k)))) \<and>
   sorted_wrt (<) (waitingPipes (commandPipes \<sigma>)) \<and>
   set (waitingPipes (commandPipes \<sigma>)) =
     {k. k < length (commandPipes \<sigma>) \<and> phase (commandPipes \<sigma> ! k) = Waiting} \<and>
   (4 \<le> n \<longrightarrow> (\<exists>\<tau>. nextState (debuggerState n) attachState_subject IS_ACTIVE \<sigma> = Some \<tau>))"
proof -
  have A: "commandPipes \<tau> = commandPipes \<sigma> @
        [\<lparr>command = commands \<sigma> ! j,
          phase = (if attachState (debuggerSubject \<sigma>) = IS_ACTIVE then Running else Waiting)\<rparr>]"
    if "j < length (commands \<sigma>)" and "step n (Subscribe j) \<sigma> = Some \<tau>" for \<tau>
    using that by (auto simp: subscribePipe_def)
  have A': "\<forall>k < length (commandPipes \<sigma>).
         k < length (commandPipes \<tau>) \<and>
         command (commandPipes \<tau> ! k) = command (commandPipes \<sigma> ! k)"
    if "step n e \<sigma> = Some \<tau>" for \<tau>
    using commandPipes_step[OF that] by simp
  have B: "commandPipes \<tau> = map startPipe (commandPipes \<sigma>) \<and>
      callsOf (pendingCalls \<tau>) = callsOf (pendingCalls \<sigma>) @ waitingPipes (commandPipes \<sigma>) \<and>
      (\<forall>k < length (commandPipes \<sigma>).
         command (commandPipes \<tau> ! k) = command (commandPipes \<sigma> ! k) \<and>
         (phase (commandPipes \<sigma> ! k) = Waiting \<longrightarrow>
            phase (commandPipes \<tau> ! k) = Running \<and> k \<in> set (callsOf (pendingCalls \<tau>))) \<and>
         (phase (commandPipes \<sigma> ! k) \<noteq> Waiting \<longrightarrow>
            phase (commandPipes \<tau> ! k) = phase (commandPipes \<sigma> ! k)))"
    if a: "nextState (debuggerState n) attachState_subject IS_ACTIVE \<sigma> = Some \<tau>" for \<tau>
  proof -
    from nextState_frame(5,6)[OF a]
    have ps: "commandPipes \<tau> = map startPipe (commandPipes \<sigma>)"
      and pc: "callsOf (pendingCalls \<tau>) = callsOf (pendingCalls \<sigma>) @ waitingPipes (commandPipes \<sigma>)"
      by simp_all
    then show ?thesis by (simp add: phase_startPipe command_startPipe waitingPipes_iff)
  qed
  have C: "set (waitingPipes (commandPipes \<sigma>)) =
     {k. k < length (commandPipes \<sigma>) \<and> phase (commandPipes \<sigma> ! k) = Waiting}"
    by (auto simp: waitingPipes_iff)
  have D: "\<exists>\<tau>. nextState (debuggerState n) attachState_subject IS_ACTIVE \<sigma> = Some \<tau>" if "4 \<le> n"
    using that by (intro total_nextState total_debuggerState)
  from A A' B C D sorted_waitingPipes[of "commandPipes \<sigma>"] show ?thesis by blast
qed

text \<open>
  Instances. Command \<open>A\<close> was issued before command \<open>B\<close>, and \<open>B\<close> was subscribed
  before \<open>A\<close>; a third pipe has completed. When \<open>IS_ACTIVE\<close> is pushed, the two waiting
  pipes run, \<open>B\<close> first, and the third stays as it is. When the first pipe is
  unsubscribed instead, the second is still the pipe of \<open>A\<close>. On a controller that is
  not attached, \<open>subscribe()\<close> on the second of two observables adds a waiting pipe for
  \<open>B\<close>.
\<close>

theorem every_waiting_command_runs_witness:
  "(\<exists>\<tau>. nextState (debuggerState 4) attachState_subject IS_ACTIVE
          (initial\<lparr>commands := [Protocol ''A'', Protocol ''B''],
                   commandPipes := [\<lparr>command = Protocol ''B'', phase = Waiting\<rparr>,
                                     \<lparr>command = Protocol ''A'', phase = Waiting\<rparr>,
                                     \<lparr>command = Protocol ''A'', phase = Completed\<rparr>]\<rparr>) = Some \<tau> \<and>
        map phase (commandPipes \<tau>) = [Running, Running, Completed] \<and>
        callsOf (pendingCalls \<tau>) = [0, 1] \<and>
        command (commandPipes \<tau> ! 0) = Protocol ''B'' \<and>
        command (commandPipes \<tau> ! 1) = Protocol ''A'') \<and>
   (\<exists>\<tau>. step 4 (Unsubscribe 0)
          (initial\<lparr>commands := [Protocol ''A'', Protocol ''B''],
                   commandPipes := [\<lparr>command = Protocol ''B'', phase = Waiting\<rparr>,
                                     \<lparr>command = Protocol ''A'', phase = Waiting\<rparr>,
                                     \<lparr>command = Protocol ''A'', phase = Completed\<rparr>]\<rparr>) = Some \<tau> \<and>
        1 < length (commandPipes \<tau>) \<and> command (commandPipes \<tau> ! 1) = Protocol ''A'') \<and>
   (\<exists>\<tau>. step 4 (Subscribe 1) (initial\<lparr>commands := [Protocol ''A'', Protocol ''B'']\<rparr>) = Some \<tau> \<and>
        commandPipes \<tau> = [\<lparr>command = Protocol ''B'', phase = Waiting\<rparr>])"
proof -
  let ?ps = "[\<lparr>command = Protocol ''B'', phase = Waiting\<rparr>,
              \<lparr>command = Protocol ''A'', phase = Waiting\<rparr>,
              \<lparr>command = Protocol ''A'', phase = Completed\<rparr>]"
  let ?\<sigma> = "initial\<lparr>commands := [Protocol ''A'', Protocol ''B''], commandPipes := ?ps\<rparr>"
  let ?\<rho> = "initial\<lparr>commands := [Protocol ''A'', Protocol ''B'']\<rparr>"
  note T = every_waiting_command_runs[where n = 4 and \<sigma> = ?\<sigma> and j = 0 and e = "Unsubscribe 0"]
  note T1 = T[THEN conjunct2, THEN conjunct1]
  note T2 = T[THEN conjunct2, THEN conjunct2, THEN conjunct1]
  note T5 = T[THEN conjunct2, THEN conjunct2, THEN conjunct2, THEN conjunct2, THEN conjunct2]
  from T5 have "\<exists>\<tau>. nextState (debuggerState 4) attachState_subject IS_ACTIVE ?\<sigma> = Some \<tau>"
    by (rule mp) simp
  then obtain \<tau> where t: "nextState (debuggerState 4) attachState_subject IS_ACTIVE ?\<sigma> = Some \<tau>"
    by blast
  from T2[rule_format, OF t]
  have ps: "commandPipes \<tau> = map startPipe (commandPipes ?\<sigma>)"
    and pc: "callsOf (pendingCalls \<tau>) = callsOf (pendingCalls ?\<sigma>) @ waitingPipes (commandPipes ?\<sigma>)"
    by blast+
  have w: "waitingPipes ?ps = [0, 1]" by (simp add: waitingPipes_def upt_rec)
  from ps have 1: "map phase (commandPipes \<tau>) = [Running, Running, Completed]"
    and 3: "command (commandPipes \<tau> ! 0) = Protocol ''B''"
    and 4: "command (commandPipes \<tau> ! 1) = Protocol ''A''"
    by (simp_all add: startPipe_def)
  from pc w have 2: "callsOf (pendingCalls \<tau>) = [0, 1]"
    by (simp add: initial_def fresh_def)
  from t 1 2 3 4 have A: "\<exists>\<tau>. nextState (debuggerState 4) attachState_subject IS_ACTIVE ?\<sigma> = Some \<tau> \<and>
        map phase (commandPipes \<tau>) = [Running, Running, Completed] \<and>
        callsOf (pendingCalls \<tau>) = [0, 1] \<and>
        command (commandPipes \<tau> ! 0) = Protocol ''B'' \<and>
        command (commandPipes \<tau> ! 1) = Protocol ''A''"
    by (intro exI[of _ \<tau>] conjI)
  obtain \<omega> where o: "step 4 (Unsubscribe 0) ?\<sigma> = Some \<omega>" using step_returns[of 4] by blast
  have "1 < length (commandPipes ?\<sigma>)" by simp
  with T1[rule_format, OF o]
  have "1 < length (commandPipes \<omega>) \<and> command (commandPipes \<omega> ! 1) = command (commandPipes ?\<sigma> ! 1)"
    by blast
  then have "1 < length (commandPipes \<omega>)" and "command (commandPipes \<omega> ! 1) = Protocol ''A''"
    by simp_all
  with o have A': "\<exists>\<tau>. step 4 (Unsubscribe 0) ?\<sigma> = Some \<tau> \<and>
        1 < length (commandPipes \<tau>) \<and> command (commandPipes \<tau> ! 1) = Protocol ''A''"
    by (intro exI[of _ \<omega>] conjI)
  note U = every_waiting_command_runs[where n = 4 and \<sigma> = ?\<rho> and j = 1 and e = "Subscribe 1",
      THEN conjunct1]
  obtain \<upsilon> where u: "step 4 (Subscribe 1) ?\<rho> = Some \<upsilon>" by simp
  have l: "1 < length (commands ?\<rho>)" by simp
  from U[rule_format, OF l u]
  have "commandPipes \<upsilon> = [\<lparr>command = Protocol ''B'', phase = Waiting\<rparr>]"
    by (simp add: initial_def fresh_def)
  with u have B: "\<exists>\<tau>. step 4 (Subscribe 1) ?\<rho> = Some \<tau> \<and>
        commandPipes \<tau> = [\<lparr>command = Protocol ''B'', phase = Waiting\<rparr>]"
    by (intro exI[of _ \<upsilon>] conjI)
  from A A' B show ?thesis by (intro conjI)
qed

text \<open>
  The claim that only the most recent request proceeds fails: two commands are issued
  while the attachment is \<open>ACTIVATING\<close>, \<open>A\<close> before \<open>B\<close>, and subscribed, \<open>B\<close> before
  \<open>A\<close>; when the attach call completes, both make their \<open>chrome.debugger.sendCommand\<close>
  call, \<open>B\<close> first.
\<close>

theorem only_latest_command_runs_counterexample:
  "map_option (\<lambda>\<sigma>. (attachState (debuggerSubject \<sigma>), commandPipes \<sigma>, pendingCalls \<sigma>))
     (afterEvents 4 [GrantTemporary, SendCommand (Protocol ''A''), SendCommand (Protocol ''B''),
        Subscribe 1, Subscribe 0])
     = Some (ACTIVATING,
         [\<lparr>command = Protocol ''B'', phase = Waiting\<rparr>, \<lparr>command = Protocol ''A'', phase = Waiting\<rparr>],
         [TransitionCall attachState_subject (activateTransition attachState_subject)]) \<and>
   map_option (\<lambda>\<sigma>. (attachState (debuggerSubject \<sigma>), commandPipes \<sigma>, pendingCalls \<sigma>, commandCalls \<sigma>))
     (afterEvents 4 [GrantTemporary, SendCommand (Protocol ''A''), SendCommand (Protocol ''B''),
        Subscribe 1, Subscribe 0, Callback 0 None])
     = Some (IS_ACTIVE,
         [\<lparr>command = Protocol ''B'', phase = Running\<rparr>, \<lparr>command = Protocol ''A'', phase = Running\<rparr>],
         [CommandCall 0, CommandCall 1],
         [Protocol ''B'', Protocol ''A''])"
  by code_simp

section \<open>The interest of a command and of its subscriptions\<close>

lemma endedPipes_append [simp]:
  "endedPipes (ps @ [p]) = endedPipes ps + (if ended p then 1 else 0)"
  by (simp add: endedPipes_def)

lemma endedPipes_update_same:
  "k < length ps \<Longrightarrow> ended p = ended (ps ! k) \<Longrightarrow> endedPipes (ps[k := p]) = endedPipes ps"
  unfolding endedPipes_def
  by (induction ps arbitrary: k) (auto split: nat.splits)

lemma endedPipes_update_end:
  "k < length ps \<Longrightarrow> \<not> ended (ps ! k) \<Longrightarrow> ended p \<Longrightarrow> endedPipes (ps[k := p]) = Suc (endedPipes ps)"
  unfolding endedPipes_def
  by (induction ps arbitrary: k) (auto split: nat.splits)

lemma endedPipes_startPipe: "endedPipes (map startPipe ps) = endedPipes ps"
  unfolding endedPipes_def
  by (induction ps) (auto simp: startPipe_def ended_def)

lemma commandInterest_nextState:
  assumes "nextState (debuggerState n) c v \<sigma> = Some \<tau>"
  shows "commandInterest \<tau> = commandInterest \<sigma>"
  using nextState_frame(2,5,7)[OF assms]
  by (simp add: commandInterest_def endedPipes_startPipe)

lemma commandInterest_nextPermission:
  assumes "nextPermission (debuggerState n) v \<sigma> = Some \<tau>"
  shows "commandInterest \<tau> = commandInterest \<sigma>"
  using nextPermission_frame(2,5,7)[OF assms]
  by (simp add: commandInterest_def)

lemma commandInterest_nextCounter:
  assumes "nextCounter (debuggerState n) c v \<sigma> = Some \<tau>"
  shows "commandInterest \<tau> =
    (case c of
       attachInterest_subject \<Rightarrow>
         v - int (length (commands \<sigma>)) + int (endedPipes (commandPipes \<sigma>))
     | webAudioEventInterest_subject \<Rightarrow> commandInterest \<sigma>)"
proof (cases c)
  case attachInterest_subject
  with nextCounter_frame(2,5,7)[OF assms] show ?thesis
    by (simp add: commandInterest_def counterValue_def)
next
  case webAudioEventInterest_subject
  with nextCounter_frame(3)[OF assms, of attachInterest_subject] nextCounter_frame(5,7)[OF assms]
  show ?thesis
    by (simp add: commandInterest_def counterValue_def)
qed

lemma commandInterest_reject:
  "reject (debuggerState n) \<sigma> = Some \<tau> \<Longrightarrow> commandInterest \<tau> = commandInterest \<sigma>"
  by (auto simp: reject_def split: if_splits dest: commandInterest_nextPermission)

lemma commandInterest_settleTransition:
  "settleTransition (debuggerState n) c d r \<sigma> = Some \<tau> \<Longrightarrow> commandInterest \<tau> = commandInterest \<sigma>"
  by (auto simp: settleTransition_def commandInterest_def split: option.splits sum.splits
      dest: commandInterest_nextState)

lemma commandInterest_endPipe:
  assumes "decrement (debuggerState n) attachInterest_subject
             (\<sigma>\<lparr>commandPipes := (commandPipes \<sigma>)[k := (commandPipes \<sigma> ! k)\<lparr>phase := ph\<rparr>]\<rparr>) = Some \<tau>"
    and "k < length (commandPipes \<sigma>)" and "\<not> ended (commandPipes \<sigma> ! k)"
    and "ph = Completed \<or> ph = Errored \<or> ph = Unsubscribed"
  shows "commandInterest \<tau> = commandInterest \<sigma>"
proof -
  from assms(4) have "ended ((commandPipes \<sigma> ! k)\<lparr>phase := ph\<rparr>)" by (simp add: ended_def)
  with assms(2,3)
  have "endedPipes ((commandPipes \<sigma>)[k := (commandPipes \<sigma> ! k)\<lparr>phase := ph\<rparr>])
      = Suc (endedPipes (commandPipes \<sigma>))"
    by (intro endedPipes_update_end)
  with endPipe(1,2,3)[OF assms(1)] show ?thesis by (simp add: commandInterest_def)
qed

lemma commandInterest_settleCommand:
  assumes "settleCommand (debuggerState n) k r \<sigma> = Some \<tau>"
  shows "commandInterest \<tau> = commandInterest \<sigma>"
proof (cases "k < length (commandPipes \<sigma>) \<and> phase (commandPipes \<sigma> ! k) = Running")
  case True
  let ?ph = "case r of None \<Rightarrow> Completed | Some err \<Rightarrow> Errored"
  from True assms have "decrement (debuggerState n) attachInterest_subject
      (\<sigma>\<lparr>commandPipes := (commandPipes \<sigma>)[k := (commandPipes \<sigma> ! k)\<lparr>phase := ?ph\<rparr>]\<rparr>) = Some \<tau>"
    by (simp add: settleCommand_def)
  moreover from True have "\<not> ended (commandPipes \<sigma> ! k)" by (simp add: ended_def)
  moreover have "?ph = Completed \<or> ?ph = Errored \<or> ?ph = Unsubscribed" by (cases r) simp_all
  ultimately show ?thesis using True by (intro commandInterest_endPipe[where ph = ?ph]) simp_all
next
  case False
  with assms show ?thesis by (auto simp: settleCommand_def)
qed

lemma commandInterest_unsubscribePipe:
  assumes "unsubscribePipe (debuggerState n) k \<sigma> = Some \<tau>"
  shows "commandInterest \<tau> = commandInterest \<sigma>"
proof (cases "k < length (commandPipes \<sigma>) \<and>
    (phase (commandPipes \<sigma> ! k) = Waiting \<or> phase (commandPipes \<sigma> ! k) = Running)")
  case True
  with assms have "decrement (debuggerState n) attachInterest_subject
      (\<sigma>\<lparr>commandPipes := (commandPipes \<sigma>)[k := (commandPipes \<sigma> ! k)\<lparr>phase := Unsubscribed\<rparr>]\<rparr>) = Some \<tau>"
    by (simp add: unsubscribePipe_def)
  moreover from True have "\<not> ended (commandPipes \<sigma> ! k)" by (auto simp: ended_def)
  ultimately show ?thesis using True by (intro commandInterest_endPipe[where ph = Unsubscribed]) simp_all
next
  case False
  with assms show ?thesis by (auto simp: unsubscribePipe_def)
qed

lemma commandInterest_subscribePipe: "commandInterest (subscribePipe k \<sigma>) = commandInterest \<sigma>"
  by (simp add: subscribePipe_def commandInterest_def ended_def)

lemma commandInterest_step:
  assumes "step n e \<sigma> = Some \<tau>"
  shows "commandInterest \<tau> = commandInterest \<sigma> + callerDelta e"
proof (cases e)
  case GrantTemporary
  with assms show ?thesis
    by (auto simp: grantTemporary_def split: if_splits dest: commandInterest_nextPermission)
next
  case Reject
  with assms show ?thesis by (auto dest: commandInterest_reject)
next
  case (Increment c)
  with assms have "nextCounter (debuggerState n) c (counterValue c \<sigma> + 1) \<sigma> = Some \<tau>"
    by (simp add: increment_def)
  from commandInterest_nextCounter[OF this] Increment show ?thesis
    by (cases c) (simp_all add: commandInterest_def counterValue_def)
next
  case (Decrement c)
  with assms have "nextCounter (debuggerState n) c (counterValue c \<sigma> - 1) \<sigma> = Some \<tau>"
    by (simp add: decrement_def)
  from commandInterest_nextCounter[OF this] Decrement show ?thesis
    by (cases c) (simp_all add: commandInterest_def counterValue_def)
next
  case (OnDetach reason)
  with assms obtain \<sigma>1 where
    r: "(if reason = ''canceled_by_user'' then reject (debuggerState n) \<sigma> else Some \<sigma>) = Some \<sigma>1"
    and f: "nextState (debuggerState n) attachState_subject IS_INACTIVE \<sigma>1 = Some \<tau>"
    by (auto simp: onDebuggerDetach_def split: bind_splits)
  from r have "commandInterest \<sigma>1 = commandInterest \<sigma>"
    by (auto split: if_splits dest: commandInterest_reject)
  with commandInterest_nextState[OF f] OnDetach show ?thesis by simp
next
  case (SendCommand m)
  with assms have s: "sendCommand (debuggerState n) m \<sigma> = Some \<tau>" by simp
  from sendCommand_issues(1,2,3)[OF s] SendCommand show ?thesis
    by (simp add: commandInterest_def)
next
  case (Subscribe k)
  with assms show ?thesis by (auto simp: commandInterest_subscribePipe)
next
  case (Unsubscribe k)
  with assms show ?thesis by (auto dest: commandInterest_unsubscribePipe)
next
  case (Callback i r)
  have "commandInterest (\<sigma>\<lparr>pendingCalls := x\<rparr>) = commandInterest \<sigma>" for x
    by (simp add: commandInterest_def)
  with assms Callback show ?thesis
    by (auto simp: callback_def split: if_splits pendingCall.splits
        dest!: commandInterest_settleTransition commandInterest_settleCommand)
qed

lemma commandInterest_run:
  "run n es \<sigma> = Some \<tau> \<Longrightarrow> commandInterest \<tau> = commandInterest \<sigma> + callerBalance es"
proof (induction es arbitrary: \<sigma>)
  case Nil
  then show ?case by (simp add: callerBalance_def)
next
  case (Cons e es)
  from Cons.prems obtain \<sigma>' where s: "step n e \<sigma> = Some \<sigma>'" and r: "run n es \<sigma>' = Some \<tau>"
    by (auto split: bind_splits)
  from commandInterest_step[OF s] Cons.IH[OF r] show ?case
    by (simp add: callerBalance_def)
qed

text \<open>The observables that exist are those that the calls of \<open>sendCommand\<close> returned.\<close>

lemma settleTransition_commands:
  "settleTransition (debuggerState n) c d r \<sigma> = Some \<tau> \<Longrightarrow> commands \<tau> = commands \<sigma>"
  by (auto simp: settleTransition_def split: option.splits sum.splits dest: nextState_frame(7))

lemma settleCommand_commands:
  "settleCommand (debuggerState n) k r \<sigma> = Some \<tau> \<Longrightarrow> commands \<tau> = commands \<sigma>"
  by (auto simp: settleCommand_def split: if_splits dest: endPipe(3))

lemma commands_step:
  assumes "step n e \<sigma> = Some \<tau>"
  shows "commands \<tau> = commands \<sigma> @ issuedBy e"
proof (cases e)
  case GrantTemporary
  with assms show ?thesis
    by (auto simp: grantTemporary_def split: if_splits dest: nextPermission_frame(7))
next
  case Reject
  with assms show ?thesis
    by (auto simp: reject_def split: if_splits dest: nextPermission_frame(7))
next
  case (Increment c)
  with assms show ?thesis by (auto simp: increment_def dest: nextCounter_frame(7))
next
  case (Decrement c)
  with assms show ?thesis by (auto simp: decrement_def dest: nextCounter_frame(7))
next
  case (OnDetach reason)
  with assms obtain \<sigma>1 where
    r: "(if reason = ''canceled_by_user'' then reject (debuggerState n) \<sigma> else Some \<sigma>) = Some \<sigma>1"
    and f: "nextState (debuggerState n) attachState_subject IS_INACTIVE \<sigma>1 = Some \<tau>"
    by (auto simp: onDebuggerDetach_def split: bind_splits)
  from r have "commands \<sigma>1 = commands \<sigma>"
    by (auto simp: reject_def split: if_splits dest: nextPermission_frame(7))
  with nextState_frame(7)[OF f] OnDetach show ?thesis by simp
next
  case (SendCommand m)
  with assms show ?thesis by (auto dest: sendCommand_issues(2))
next
  case (Subscribe k)
  with assms show ?thesis by (auto simp: subscribePipe_frame)
next
  case (Unsubscribe k)
  with assms show ?thesis
    by (auto simp: unsubscribePipe_def split: if_splits dest: endPipe(3))
next
  case (Callback i r)
  with assms show ?thesis
    by (auto simp: callback_def split: if_splits pendingCall.splits
        dest!: settleTransition_commands settleCommand_commands)
qed

lemma commands_run: "run n es \<sigma> = Some \<tau> \<Longrightarrow> commands \<tau> = commands \<sigma> @ issued es"
proof (induction es arbitrary: \<sigma>)
  case Nil
  then show ?case by (simp add: issued_def)
next
  case (Cons e es)
  from Cons.prems obtain \<sigma>' where s: "step n e \<sigma> = Some \<sigma>'" and r: "run n es \<sigma>' = Some \<tau>"
    by (auto split: bind_splits)
  from commands_step[OF s] Cons.IH[OF r] show ?case
    by (simp add: issued_def)
qed

text \<open>Every running pipe has its call in flight.\<close>

lemma runningPipes_append:
  "runningPipes (ps @ [p]) =
     (if phase p = Running then insert (length ps) (runningPipes ps) else runningPipes ps)"
  by (auto simp: runningPipes_def nth_append less_Suc_eq)

lemma startedPipes_append:
  "startedPipes (ps @ [p]) =
     (if phase p \<noteq> Waiting then insert (length ps) (startedPipes ps) else startedPipes ps)"
  by (auto simp: startedPipes_def nth_append less_Suc_eq)

lemma runningPipes_stop:
  "k < length ps \<Longrightarrow> phase p \<noteq> Running \<Longrightarrow> runningPipes (ps[k := p]) = runningPipes ps - {k}"
  by (auto simp: runningPipes_def nth_list_update)

lemma startedPipes_stop:
  "k < length ps \<Longrightarrow> phase p \<noteq> Waiting \<Longrightarrow> startedPipes (ps[k := p]) = insert k (startedPipes ps)"
  by (auto simp: startedPipes_def nth_list_update)

lemma runningPipes_startPipe:
  "runningPipes (map startPipe ps) = runningPipes ps \<union> set (waitingPipes ps)"
  by (auto simp: runningPipes_def waitingPipes_iff phase_startPipe)

lemma startedPipes_startPipe:
  "startedPipes (map startPipe ps) = startedPipes ps \<union> set (waitingPipes ps)"
  by (auto simp: startedPipes_def waitingPipes_iff phase_startPipe)

lemma startedPipes_waitingPipes: "startedPipes ps \<inter> set (waitingPipes ps) = {}"
  by (auto simp: startedPipes_def waitingPipes_iff)

lemma startedPipes_less: "k \<in> startedPipes ps \<Longrightarrow> k < length ps"
  by (simp add: startedPipes_def)

lemma distinct_waitingPipes: "distinct (waitingPipes ps)"
  by (simp add: waitingPipes_def)

lemma callsMatchPipes_cong:
  "callsMatchPipes \<sigma> \<Longrightarrow> commandPipes \<tau> = commandPipes \<sigma> \<Longrightarrow>
   callsOf (pendingCalls \<tau>) = callsOf (pendingCalls \<sigma>) \<Longrightarrow> callsMatchPipes \<tau>"
  by (simp add: callsMatchPipes_def)

lemma callsMatchPipes_nextState:
  assumes "callsMatchPipes \<sigma>" and "nextState (debuggerState n) c v \<sigma> = Some \<tau>"
  shows "callsMatchPipes \<tau>"
proof (cases "c = attachState_subject \<and> v = IS_ACTIVE")
  case False
  with nextState_frame(5,6)[OF assms(2)]
  have "commandPipes \<tau> = commandPipes \<sigma>"
    and "callsOf (pendingCalls \<tau>) = callsOf (pendingCalls \<sigma>)"
    by simp_all
  with assms(1) show ?thesis by (rule callsMatchPipes_cong)
next
  case True
  with nextState_frame(5,6)[OF assms(2)]
  have p: "commandPipes \<tau> = map startPipe (commandPipes \<sigma>)"
    and c: "callsOf (pendingCalls \<tau>) = callsOf (pendingCalls \<sigma>) @ waitingPipes (commandPipes \<sigma>)"
    by simp_all
  from assms(1) have d: "distinct (callsOf (pendingCalls \<sigma>))"
    and r: "runningPipes (commandPipes \<sigma>) \<subseteq> set (callsOf (pendingCalls \<sigma>))"
    and s: "set (callsOf (pendingCalls \<sigma>)) \<subseteq> startedPipes (commandPipes \<sigma>)"
    by (simp_all add: callsMatchPipes_def)
  from s startedPipes_waitingPipes[of "commandPipes \<sigma>"]
  have "set (callsOf (pendingCalls \<sigma>)) \<inter> set (waitingPipes (commandPipes \<sigma>)) = {}"
    by blast
  with d have "distinct (callsOf (pendingCalls \<tau>))"
    unfolding c by (simp add: distinct_waitingPipes)
  moreover from r have "runningPipes (commandPipes \<tau>) \<subseteq> set (callsOf (pendingCalls \<tau>))"
    unfolding c p runningPipes_startPipe by auto
  moreover from s have "set (callsOf (pendingCalls \<tau>)) \<subseteq> startedPipes (commandPipes \<tau>)"
    unfolding c p startedPipes_startPipe by auto
  ultimately show ?thesis by (simp add: callsMatchPipes_def)
qed

lemma callsMatchPipes_nextPermission:
  "callsMatchPipes \<sigma> \<Longrightarrow> nextPermission (debuggerState n) v \<sigma> = Some \<tau> \<Longrightarrow> callsMatchPipes \<tau>"
  using nextPermission_frame(5,6)[of n v \<sigma> \<tau>] by (simp add: callsMatchPipes_def)

lemma callsMatchPipes_nextCounter:
  "callsMatchPipes \<sigma> \<Longrightarrow> nextCounter (debuggerState n) c v \<sigma> = Some \<tau> \<Longrightarrow> callsMatchPipes \<tau>"
  using nextCounter_frame(5,6)[of n c v \<sigma> \<tau>] by (simp add: callsMatchPipes_def)

lemma callsMatchPipes_reject:
  "callsMatchPipes \<sigma> \<Longrightarrow> reject (debuggerState n) \<sigma> = Some \<tau> \<Longrightarrow> callsMatchPipes \<tau>"
  by (auto simp: reject_def split: if_splits dest: callsMatchPipes_nextPermission)

lemma callsOf_removeAt_transition:
  "i < length cs \<Longrightarrow> cs ! i = TransitionCall c d \<Longrightarrow> callsOf (removeAt i cs) = callsOf cs"
proof -
  assume a: "i < length cs" "cs ! i = TransitionCall c d"
  then have "cs = take i cs @ TransitionCall c d # drop (Suc i) cs"
    by (metis id_take_nth_drop)
  then have "callsOf cs = callsOf (take i cs) @ callsOf (drop (Suc i) cs)"
    by (metis callsOf.simps(3) callsOf_append)
  then show ?thesis by (simp add: removeAt_def)
qed

lemma callsOf_removeAt_command:
  assumes "i < length cs" and "cs ! i = CommandCall k" and "distinct (callsOf cs)"
  shows "distinct (callsOf (removeAt i cs))"
    and "set (callsOf (removeAt i cs)) = set (callsOf cs) - {k}"
    and "k \<in> set (callsOf cs)"
proof -
  from assms(1,2) have "cs = take i cs @ CommandCall k # drop (Suc i) cs"
    by (metis id_take_nth_drop)
  then have e: "callsOf cs = callsOf (take i cs) @ k # callsOf (drop (Suc i) cs)"
    by (metis callsOf.simps(2) callsOf_append)
  have r: "callsOf (removeAt i cs) = callsOf (take i cs) @ callsOf (drop (Suc i) cs)"
    by (simp add: removeAt_def)
  from assms(3) show "distinct (callsOf (removeAt i cs))" unfolding r e by simp
  from assms(3) show "set (callsOf (removeAt i cs)) = set (callsOf cs) - {k}"
    unfolding r e by auto
  show "k \<in> set (callsOf cs)" unfolding e by simp
qed

lemma callsMatchPipes_sendCommand:
  assumes "callsMatchPipes \<sigma>" and "sendCommand (debuggerState n) m \<sigma> = Some \<tau>"
  shows "callsMatchPipes \<tau>"
  using assms(1) sendCommand_issues(3,4)[OF assms(2)] by (rule callsMatchPipes_cong)

lemma callsMatchPipes_subscribePipe:
  assumes "callsMatchPipes \<sigma>"
  shows "callsMatchPipes (subscribePipe k \<sigma>)"
proof (cases "k < length (commands \<sigma>)")
  case False
  with assms show ?thesis by (simp add: subscribePipe_def)
next
  case True
  from assms have d: "distinct (callsOf (pendingCalls \<sigma>))"
    and r: "runningPipes (commandPipes \<sigma>) \<subseteq> set (callsOf (pendingCalls \<sigma>))"
    and s: "set (callsOf (pendingCalls \<sigma>)) \<subseteq> startedPipes (commandPipes \<sigma>)"
    by (simp_all add: callsMatchPipes_def)
  from s have n: "length (commandPipes \<sigma>) \<notin> set (callsOf (pendingCalls \<sigma>))"
    using startedPipes_less[of "length (commandPipes \<sigma>)" "commandPipes \<sigma>"] by blast
  show ?thesis
  proof (cases "attachState (debuggerSubject \<sigma>) = IS_ACTIVE")
    case active: True
    have "distinct (callsOf (pendingCalls (subscribePipe k \<sigma>)))"
      using True active d n by (simp add: subscribePipe_def)
    moreover have "runningPipes (commandPipes (subscribePipe k \<sigma>))
        \<subseteq> set (callsOf (pendingCalls (subscribePipe k \<sigma>)))"
      using True active r by (auto simp: subscribePipe_def runningPipes_append)
    moreover have "set (callsOf (pendingCalls (subscribePipe k \<sigma>)))
        \<subseteq> startedPipes (commandPipes (subscribePipe k \<sigma>))"
      using True active s by (auto simp: subscribePipe_def startedPipes_append)
    ultimately show ?thesis by (simp add: callsMatchPipes_def)
  next
    case inactive: False
    have "distinct (callsOf (pendingCalls (subscribePipe k \<sigma>)))"
      using True inactive d by (simp add: subscribePipe_def)
    moreover have "runningPipes (commandPipes (subscribePipe k \<sigma>))
        \<subseteq> set (callsOf (pendingCalls (subscribePipe k \<sigma>)))"
      using True inactive r by (simp add: subscribePipe_def runningPipes_append)
    moreover have "set (callsOf (pendingCalls (subscribePipe k \<sigma>)))
        \<subseteq> startedPipes (commandPipes (subscribePipe k \<sigma>))"
      using True inactive s by (simp add: subscribePipe_def startedPipes_append)
    ultimately show ?thesis by (simp add: callsMatchPipes_def)
  qed
qed

lemma callsMatchPipes_endPipe:
  assumes "callsMatchPipes \<sigma>"
    and "decrement (debuggerState n) attachInterest_subject
             (\<sigma>\<lparr>commandPipes := (commandPipes \<sigma>)[k := (commandPipes \<sigma> ! k)\<lparr>phase := ph\<rparr>]\<rparr>) = Some \<tau>"
    and "k < length (commandPipes \<sigma>)" and "ph \<noteq> Running" and "ph \<noteq> Waiting"
  shows "callsMatchPipes \<tau>"
proof -
  let ?p = "(commandPipes \<sigma> ! k)\<lparr>phase := ph\<rparr>"
  from assms(1) have d: "distinct (callsOf (pendingCalls \<sigma>))"
    and r: "runningPipes (commandPipes \<sigma>) \<subseteq> set (callsOf (pendingCalls \<sigma>))"
    and s: "set (callsOf (pendingCalls \<sigma>)) \<subseteq> startedPipes (commandPipes \<sigma>)"
    by (simp_all add: callsMatchPipes_def)
  have "runningPipes ((commandPipes \<sigma>)[k := ?p]) = runningPipes (commandPipes \<sigma>) - {k}"
    using assms(3,4) by (intro runningPipes_stop) simp_all
  moreover have "startedPipes ((commandPipes \<sigma>)[k := ?p]) = insert k (startedPipes (commandPipes \<sigma>))"
    using assms(3,5) by (intro startedPipes_stop) simp_all
  ultimately show ?thesis
    using d r s endPipe(2,4)[OF assms(2)] by (auto simp: callsMatchPipes_def)
qed

lemma callsMatchPipes_unsubscribePipe:
  assumes "callsMatchPipes \<sigma>" and "unsubscribePipe (debuggerState n) k \<sigma> = Some \<tau>"
  shows "callsMatchPipes \<tau>"
proof (cases "k < length (commandPipes \<sigma>) \<and>
    (phase (commandPipes \<sigma> ! k) = Waiting \<or> phase (commandPipes \<sigma> ! k) = Running)")
  case True
  then have k: "k < length (commandPipes \<sigma>)" by simp
  from True assms(2) have d: "decrement (debuggerState n) attachInterest_subject
      (\<sigma>\<lparr>commandPipes := (commandPipes \<sigma>)[k := (commandPipes \<sigma> ! k)\<lparr>phase := Unsubscribed\<rparr>]\<rparr>) = Some \<tau>"
    by (simp add: unsubscribePipe_def)
  from assms(1) d k show ?thesis by (rule callsMatchPipes_endPipe) simp_all
next
  case False
  with assms show ?thesis by (auto simp: unsubscribePipe_def)
qed

lemma callsMatchPipes_settleTransition:
  assumes "callsMatchPipes \<sigma>" and "settleTransition (debuggerState n) c d r \<sigma> = Some \<tau>"
  shows "callsMatchPipes \<tau>"
proof -
  from assms(2) have "\<tau> = \<sigma> \<or> (\<exists>v. nextState (debuggerState n) c v \<sigma> = Some \<tau>) \<or>
        (\<exists>x. \<tau> = \<sigma>\<lparr>unhandledErrors := x\<rparr>)"
    by (auto simp: settleTransition_def split: option.splits sum.splits)
  then consider "\<tau> = \<sigma>" | v where "nextState (debuggerState n) c v \<sigma> = Some \<tau>"
    | x where "\<tau> = \<sigma>\<lparr>unhandledErrors := x\<rparr>"
    by blast
  then show ?thesis
  proof cases
    case 1
    with assms(1) show ?thesis by simp
  next
    case 2
    with assms(1) show ?thesis by (rule callsMatchPipes_nextState)
  next
    case 3
    with assms(1) show ?thesis by (simp add: callsMatchPipes_def)
  qed
qed

lemma callsMatchPipes_callback:
  assumes "callsMatchPipes \<sigma>" and "callback (debuggerState n) i r \<sigma> = Some \<tau>"
  shows "callsMatchPipes \<tau>"
proof (cases "i < length (pendingCalls \<sigma>)")
  case False
  with assms show ?thesis by (simp add: callback_def)
next
  case True
  from assms(1) have d: "distinct (callsOf (pendingCalls \<sigma>))"
    and m: "runningPipes (commandPipes \<sigma>) \<subseteq> set (callsOf (pendingCalls \<sigma>))"
    and s: "set (callsOf (pendingCalls \<sigma>)) \<subseteq> startedPipes (commandPipes \<sigma>)"
    by (simp_all add: callsMatchPipes_def)
  let ?\<sigma>' = "\<sigma>\<lparr>pendingCalls := removeAt i (pendingCalls \<sigma>)\<rparr>"
  show ?thesis
  proof (cases "pendingCalls \<sigma> ! i")
    case (TransitionCall c d')
    with True assms(2)
    have t: "settleTransition (debuggerState n) c d' r ?\<sigma>' = Some \<tau>"
      by (simp add: callback_def)
    from callsOf_removeAt_transition[OF True TransitionCall] assms(1)
    have "callsMatchPipes ?\<sigma>'" by (simp add: callsMatchPipes_def)
    then show ?thesis using t by (rule callsMatchPipes_settleTransition)
  next
    case (CommandCall k)
    with True assms(2)
    have c: "settleCommand (debuggerState n) k r ?\<sigma>' = Some \<tau>"
      by (simp add: callback_def)
    note rm = callsOf_removeAt_command[OF True CommandCall d]
    from rm(3) s have k: "k < length (commandPipes \<sigma>)" by (auto dest: startedPipes_less)
    let ?ph = "case r of None \<Rightarrow> Completed | Some err \<Rightarrow> Errored"
    let ?p = "(commandPipes \<sigma> ! k)\<lparr>phase := ?ph\<rparr>"
    show ?thesis
    proof (cases "phase (commandPipes \<sigma> ! k) = Running")
      case True
      let ?\<sigma>'' = "?\<sigma>'\<lparr>commandPipes := (commandPipes \<sigma>)[k := ?p]\<rparr>"
      have np: "phase ?p \<noteq> Running" and nw: "phase ?p \<noteq> Waiting" by (cases r; simp)+
      from True k c have dec: "nextCounter (debuggerState n) attachInterest_subject
          (counterValue attachInterest_subject ?\<sigma>'' - 1) ?\<sigma>'' = Some \<tau>"
        by (simp add: settleCommand_def decrement_def)
      have "callsMatchPipes ?\<sigma>''"
        using rm(1,2) m s runningPipes_stop[OF k np] startedPipes_stop[OF k nw]
        by (auto simp: callsMatchPipes_def)
      then show ?thesis using dec by (rule callsMatchPipes_nextCounter)
    next
      case False
      with c have "\<tau> = ?\<sigma>'" by (simp add: settleCommand_def)
      moreover from False have "k \<notin> runningPipes (commandPipes \<sigma>)" by (simp add: runningPipes_def)
      ultimately show ?thesis using rm(1,2) m s by (auto simp: callsMatchPipes_def)
    qed
  qed
qed

lemma callsMatchPipes_step:
  assumes "callsMatchPipes \<sigma>" and "step n e \<sigma> = Some \<tau>"
  shows "callsMatchPipes \<tau>"
proof (cases e)
  case GrantTemporary
  with assms show ?thesis
    by (auto simp: grantTemporary_def split: if_splits dest: callsMatchPipes_nextPermission)
next
  case Reject
  with assms show ?thesis by (auto dest: callsMatchPipes_reject)
next
  case (Increment c)
  with assms show ?thesis by (auto simp: increment_def dest: callsMatchPipes_nextCounter)
next
  case (Decrement c)
  with assms show ?thesis by (auto simp: decrement_def dest: callsMatchPipes_nextCounter)
next
  case (OnDetach reason)
  with assms(2) obtain \<sigma>1 where
    r: "(if reason = ''canceled_by_user'' then reject (debuggerState n) \<sigma> else Some \<sigma>) = Some \<sigma>1"
    and f: "nextState (debuggerState n) attachState_subject IS_INACTIVE \<sigma>1 = Some \<tau>"
    by (auto simp: onDebuggerDetach_def split: bind_splits)
  from r assms(1) have "callsMatchPipes \<sigma>1"
    by (auto split: if_splits dest: callsMatchPipes_reject)
  then show ?thesis using f by (rule callsMatchPipes_nextState)
next
  case (SendCommand m)
  with assms show ?thesis by (auto dest: callsMatchPipes_sendCommand)
next
  case (Subscribe k)
  with assms show ?thesis by (auto simp: callsMatchPipes_subscribePipe)
next
  case (Unsubscribe k)
  with assms show ?thesis by (auto dest: callsMatchPipes_unsubscribePipe)
next
  case (Callback i r)
  with assms show ?thesis by (auto dest: callsMatchPipes_callback)
qed

lemma callsMatchPipes_run:
  "callsMatchPipes \<sigma> \<Longrightarrow> run n es \<sigma> = Some \<tau> \<Longrightarrow> callsMatchPipes \<tau>"
proof (induction es arbitrary: \<sigma>)
  case Nil
  then show ?case by simp
next
  case (Cons e es)
  from Cons.prems(2) obtain \<sigma>' where s: "step n e \<sigma> = Some \<sigma>'" and r: "run n es \<sigma>' = Some \<tau>"
    by (auto split: bind_splits)
  from Cons.prems(1) s have "callsMatchPipes \<sigma>'" by (rule callsMatchPipes_step)
  then show ?case using r by (rule Cons.IH)
qed

lemma callsMatchPipes_initial: "callsMatchPipes initial"
  by (simp add: callsMatchPipes_def runningPipes_def startedPipes_def initial_def fresh_def)

text \<open>
  C8, as the code has it. A call of \<open>sendCommand\<close> increments the attach interest by
  one, at the call, and returns a new observable; \<open>subscribe()\<close> on it does not change
  the interest. The interest is decremented by \<open>finalize\<close>, once for every pipe, when
  the pipe ends: by the callback of the call of a running pipe, with or without an error,
  or by \<open>unsubscribe()\<close> on a pipe that is waiting or running. The callback of a call
  whose pipe is not running and \<open>unsubscribe()\<close> on a pipe that has ended change
  nothing. After the constructor and any sequence of events, the attach interest is
  therefore what the callers of \<open>increment\<close> and \<open>decrement\<close> hold themselves, plus
  the number of calls of \<open>sendCommand\<close>, minus the number of pipes that have ended; and
  every running pipe has exactly one call in flight, so that its end can come. With a
  budget of four pushes every sequence is handled.
\<close>

theorem command_interest_is_released:
  "(\<forall>\<tau>. step n (SendCommand m) \<sigma> = Some \<tau> \<longrightarrow>
      attachInterest (debuggerSubject \<tau>) = attachInterest (debuggerSubject \<sigma>) + 1 \<and>
      commands \<tau> = commands \<sigma> @ [m] \<and> commandPipes \<tau> = commandPipes \<sigma>) \<and>
   (\<forall>\<tau>. step n (Subscribe j) \<sigma> = Some \<tau> \<longrightarrow>
      attachInterest (debuggerSubject \<tau>) = attachInterest (debuggerSubject \<sigma>)) \<and>
   (\<forall>\<tau>. i < length (pendingCalls \<sigma>) \<and> pendingCalls \<sigma> ! i = CommandCall k \<and>
        k < length (commandPipes \<sigma>) \<and> phase (commandPipes \<sigma> ! k) = Running \<longrightarrow>
        step n (Callback i r) \<sigma> = Some \<tau> \<longrightarrow>
      attachInterest (debuggerSubject \<tau>) = attachInterest (debuggerSubject \<sigma>) - 1 \<and>
      phase (commandPipes \<tau> ! k) = (case r of None \<Rightarrow> Completed | Some err \<Rightarrow> Errored)) \<and>
   (i < length (pendingCalls \<sigma>) \<and> pendingCalls \<sigma> ! i = CommandCall k \<and>
      \<not> (k < length (commandPipes \<sigma>) \<and> phase (commandPipes \<sigma> ! k) = Running) \<longrightarrow>
      step n (Callback i r) \<sigma> = Some (\<sigma>\<lparr>pendingCalls := removeAt i (pendingCalls \<sigma>)\<rparr>)) \<and>
   (\<forall>\<tau>. k < length (commandPipes \<sigma>) \<and>
        (phase (commandPipes \<sigma> ! k) = Waiting \<or> phase (commandPipes \<sigma> ! k) = Running) \<longrightarrow>
        step n (Unsubscribe k) \<sigma> = Some \<tau> \<longrightarrow>
      attachInterest (debuggerSubject \<tau>) = attachInterest (debuggerSubject \<sigma>) - 1 \<and>
      phase (commandPipes \<tau> ! k) = Unsubscribed) \<and>
   (\<not> (k < length (commandPipes \<sigma>) \<and>
        (phase (commandPipes \<sigma> ! k) = Waiting \<or> phase (commandPipes \<sigma> ! k) = Running)) \<longrightarrow>
      step n (Unsubscribe k) \<sigma> = Some \<sigma>) \<and>
   (\<forall>\<sigma>'. afterEvents n es = Some \<sigma>' \<longrightarrow>
      commands \<sigma>' = issued es \<and>
      attachInterest (debuggerSubject \<sigma>') =
        callerBalance es + int (length (issued es)) - int (endedPipes (commandPipes \<sigma>')) \<and>
      distinct (callsOf (pendingCalls \<sigma>')) \<and>
      runningPipes (commandPipes \<sigma>') \<subseteq> set (callsOf (pendingCalls \<sigma>'))) \<and>
   (4 \<le> n \<longrightarrow> (\<exists>\<sigma>'. afterEvents n es = Some \<sigma>'))"
proof -
  have A: "attachInterest (debuggerSubject \<tau>) = attachInterest (debuggerSubject \<sigma>) + 1 \<and>
      commands \<tau> = commands \<sigma> @ [m] \<and> commandPipes \<tau> = commandPipes \<sigma>"
    if "step n (SendCommand m) \<sigma> = Some \<tau>" for \<tau>
    using that sendCommand_issues(1,2,3)[of n m \<sigma> \<tau>] by simp
  have A': "attachInterest (debuggerSubject \<tau>) = attachInterest (debuggerSubject \<sigma>)"
    if "step n (Subscribe j) \<sigma> = Some \<tau>" for \<tau>
    using that by (auto simp: subscribePipe_frame)
  have B: "attachInterest (debuggerSubject \<tau>) = attachInterest (debuggerSubject \<sigma>) - 1 \<and>
      phase (commandPipes \<tau> ! k) = (case r of None \<Rightarrow> Completed | Some err \<Rightarrow> Errored)"
    if g: "i < length (pendingCalls \<sigma>) \<and> pendingCalls \<sigma> ! i = CommandCall k \<and>
        k < length (commandPipes \<sigma>) \<and> phase (commandPipes \<sigma> ! k) = Running"
      and s: "step n (Callback i r) \<sigma> = Some \<tau>" for \<tau>
  proof -
    let ?\<sigma>' = "\<sigma>\<lparr>pendingCalls := removeAt i (pendingCalls \<sigma>)\<rparr>"
    from g s have "decrement (debuggerState n) attachInterest_subject
        (?\<sigma>'\<lparr>commandPipes := (commandPipes ?\<sigma>')[k := (commandPipes ?\<sigma>' ! k)
           \<lparr>phase := (case r of None \<Rightarrow> Completed | Some err \<Rightarrow> Errored)\<rparr>]\<rparr>) = Some \<tau>"
      by (simp add: callback_def settleCommand_def)
    from endPipe(1,2)[OF this] g show ?thesis by simp
  qed
  have B': "step n (Callback i r) \<sigma> = Some (\<sigma>\<lparr>pendingCalls := removeAt i (pendingCalls \<sigma>)\<rparr>)"
    if "i < length (pendingCalls \<sigma>) \<and> pendingCalls \<sigma> ! i = CommandCall k \<and>
      \<not> (k < length (commandPipes \<sigma>) \<and> phase (commandPipes \<sigma> ! k) = Running)"
  proof -
    from that have "settleCommand (debuggerState n) k r (\<sigma>\<lparr>pendingCalls := removeAt i (pendingCalls \<sigma>)\<rparr>)
        = Some (\<sigma>\<lparr>pendingCalls := removeAt i (pendingCalls \<sigma>)\<rparr>)"
      by (auto simp: settleCommand_def)
    with that show ?thesis by (simp add: callback_def)
  qed
  have U: "attachInterest (debuggerSubject \<tau>) = attachInterest (debuggerSubject \<sigma>) - 1 \<and>
      phase (commandPipes \<tau> ! k) = Unsubscribed"
    if g: "k < length (commandPipes \<sigma>) \<and>
        (phase (commandPipes \<sigma> ! k) = Waiting \<or> phase (commandPipes \<sigma> ! k) = Running)"
      and s: "step n (Unsubscribe k) \<sigma> = Some \<tau>" for \<tau>
  proof -
    from g s have "decrement (debuggerState n) attachInterest_subject
        (\<sigma>\<lparr>commandPipes := (commandPipes \<sigma>)[k := (commandPipes \<sigma> ! k)\<lparr>phase := Unsubscribed\<rparr>]\<rparr>) = Some \<tau>"
      by (simp add: unsubscribePipe_def)
    from endPipe(1,2)[OF this] g show ?thesis by simp
  qed
  have U': "step n (Unsubscribe k) \<sigma> = Some \<sigma>"
    if "\<not> (k < length (commandPipes \<sigma>) \<and>
        (phase (commandPipes \<sigma> ! k) = Waiting \<or> phase (commandPipes \<sigma> ! k) = Running))"
    using that by (auto simp: unsubscribePipe_def)
  have C: "commands \<sigma>' = issued es \<and>
      attachInterest (debuggerSubject \<sigma>') =
        callerBalance es + int (length (issued es)) - int (endedPipes (commandPipes \<sigma>')) \<and>
      distinct (callsOf (pendingCalls \<sigma>')) \<and>
      runningPipes (commandPipes \<sigma>') \<subseteq> set (callsOf (pendingCalls \<sigma>'))"
    if "afterEvents n es = Some \<sigma>'" for \<sigma>'
  proof -
    from that have r: "run n es initial = Some \<sigma>'"
      by (simp add: afterEvents_def constructor_initial)
    from commands_run[OF r] have c: "commands \<sigma>' = issued es"
      by (simp add: initial_def fresh_def)
    have "commandInterest initial = 0"
      by (simp add: commandInterest_def endedPipes_def initial_def fresh_def)
    with commandInterest_run[OF r] c
    have "attachInterest (debuggerSubject \<sigma>') =
        callerBalance es + int (length (issued es)) - int (endedPipes (commandPipes \<sigma>'))"
      by (simp add: commandInterest_def)
    moreover from callsMatchPipes_initial r have "callsMatchPipes \<sigma>'"
      by (rule callsMatchPipes_run)
    ultimately show ?thesis using c by (simp add: callsMatchPipes_def)
  qed
  have D: "\<exists>\<sigma>'. afterEvents n es = Some \<sigma>'" if "4 \<le> n"
    using that by (simp add: afterEvents_def constructor_initial run_returns)
  from A A' B B' U U' C D show ?thesis by blast
qed

text \<open>
  Instances. One command is issued while nothing is attached, is subscribed once, runs
  when the attach call has completed, and fails: one call, one ended pipe, and the
  interest is back at 0. On the new controller the call of \<open>sendCommand\<close> makes the
  interest 1; \<open>subscribe()\<close> leaves it at 1; the callback of the call of a running pipe
  takes it back to 0, and so does \<open>unsubscribe()\<close> on a waiting pipe; the callback of
  the call of an unsubscribed pipe and \<open>unsubscribe()\<close> on an unsubscribed pipe leave
  it where it is.
\<close>

theorem command_interest_is_released_witness:
  "(\<exists>\<sigma>. afterEvents 4 [GrantTemporary, SendCommand (Protocol ''HeapProfiler.collectGarbage''),
                        Subscribe 0, Callback 0 None,
                        Callback 0 (Some (LastError (Some ''Detached while handling command.'')))]
          = Some \<sigma> \<and>
        commands \<sigma> = [Protocol ''HeapProfiler.collectGarbage''] \<and>
        map phase (commandPipes \<sigma>) = [Errored] \<and>
        attachInterest (debuggerSubject \<sigma>) = 0) \<and>
   (\<exists>\<tau>. step 4 (SendCommand (Protocol ''HeapProfiler.collectGarbage'')) initial = Some \<tau> \<and>
        attachInterest (debuggerSubject \<tau>) = 1 \<and>
        commands \<tau> = [Protocol ''HeapProfiler.collectGarbage'']) \<and>
   (\<exists>\<tau>. step 4 (Subscribe 0)
          (initial\<lparr>debuggerSubject := (debuggerSubject initial)\<lparr>attachInterest := 1\<rparr>,
             commands := [Protocol ''HeapProfiler.collectGarbage'']\<rparr>) = Some \<tau> \<and>
        attachInterest (debuggerSubject \<tau>) = 1) \<and>
   (\<exists>\<tau>. step 4 (Callback 0 None)
          (initial\<lparr>debuggerSubject := (debuggerSubject initial)\<lparr>attachInterest := 1\<rparr>,
             pendingCalls := [CommandCall 0],
             commandPipes := [\<lparr>command = Protocol ''HeapProfiler.collectGarbage'', phase = Running\<rparr>]\<rparr>)
          = Some \<tau> \<and>
        attachInterest (debuggerSubject \<tau>) = 0 \<and> phase (commandPipes \<tau> ! 0) = Completed) \<and>
   (\<exists>\<tau>. step 4 (Unsubscribe 0)
          (initial\<lparr>debuggerSubject := (debuggerSubject initial)\<lparr>attachInterest := 1\<rparr>,
             commandPipes := [\<lparr>command = Protocol ''HeapProfiler.collectGarbage'', phase = Waiting\<rparr>]\<rparr>)
          = Some \<tau> \<and>
        attachInterest (debuggerSubject \<tau>) = 0 \<and> phase (commandPipes \<tau> ! 0) = Unsubscribed) \<and>
   step 4 (Callback 0 None)
     (initial\<lparr>pendingCalls := [CommandCall 0],
        commandPipes := [\<lparr>command = Protocol ''HeapProfiler.collectGarbage'', phase = Unsubscribed\<rparr>]\<rparr>)
     = Some (initial\<lparr>pendingCalls := [],
        commandPipes := [\<lparr>command = Protocol ''HeapProfiler.collectGarbage'', phase = Unsubscribed\<rparr>]\<rparr>) \<and>
   step 4 (Unsubscribe 0)
     (initial\<lparr>pendingCalls := [CommandCall 0],
        commandPipes := [\<lparr>command = Protocol ''HeapProfiler.collectGarbage'', phase = Unsubscribed\<rparr>]\<rparr>)
     = Some (initial\<lparr>pendingCalls := [CommandCall 0],
        commandPipes := [\<lparr>command = Protocol ''HeapProfiler.collectGarbage'', phase = Unsubscribed\<rparr>]\<rparr>)"
proof -
  let ?m = "Protocol ''HeapProfiler.collectGarbage''"
  let ?es = "[GrantTemporary, SendCommand ?m, Subscribe 0, Callback 0 None,
              Callback 0 (Some (LastError (Some ''Detached while handling command.'')))]"
  let ?\<rho>s = "initial\<lparr>debuggerSubject := (debuggerSubject initial)\<lparr>attachInterest := 1\<rparr>,
             commands := [?m]\<rparr>"
  let ?\<rho>r = "initial\<lparr>debuggerSubject := (debuggerSubject initial)\<lparr>attachInterest := 1\<rparr>,
             pendingCalls := [CommandCall 0],
             commandPipes := [\<lparr>command = ?m, phase = Running\<rparr>]\<rparr>"
  let ?\<rho>w = "initial\<lparr>debuggerSubject := (debuggerSubject initial)\<lparr>attachInterest := 1\<rparr>,
             commandPipes := [\<lparr>command = ?m, phase = Waiting\<rparr>]\<rparr>"
  let ?\<rho>u = "initial\<lparr>pendingCalls := [CommandCall 0],
             commandPipes := [\<lparr>command = ?m, phase = Unsubscribed\<rparr>]\<rparr>"
  have e: "map_option (map phase \<circ> commandPipes) (afterEvents 4 ?es) = Some [Errored]"
    by code_simp
  note T = command_interest_is_released[where n = 4 and es = ?es and \<sigma> = initial
      and m = ?m and i = 0 and k = 0 and j = 0 and r = None]
  note T1 = T[THEN conjunct1]
  note T7 = T[THEN conjunct2, THEN conjunct2, THEN conjunct2, THEN conjunct2, THEN conjunct2,
      THEN conjunct2, THEN conjunct1]
  note T8 = T[THEN conjunct2, THEN conjunct2, THEN conjunct2, THEN conjunct2, THEN conjunct2,
      THEN conjunct2, THEN conjunct2]
  from T8 have "\<exists>\<sigma>'. afterEvents 4 ?es = Some \<sigma>'" by (rule mp) simp
  then obtain \<sigma> where s: "afterEvents 4 ?es = Some \<sigma>" ..
  from T7[rule_format, OF s]
  have c: "commands \<sigma> = issued ?es"
    and b: "attachInterest (debuggerSubject \<sigma>) =
      callerBalance ?es + int (length (issued ?es)) - int (endedPipes (commandPipes \<sigma>))"
    by blast+
  from e s have p: "map phase (commandPipes \<sigma>) = [Errored]" by simp
  then obtain q where "commandPipes \<sigma> = [q]" and "phase q = Errored" by (cases "commandPipes \<sigma>") auto
  then have "endedPipes (commandPipes \<sigma>) = 1" by (simp add: endedPipes_def ended_def)
  moreover have "callerBalance ?es = 0" by (simp add: callerBalance_def)
  moreover have i: "issued ?es = [?m]" by (simp add: issued_def)
  ultimately have "attachInterest (debuggerSubject \<sigma>) = 0" using b by simp
  with s p c i have A: "\<exists>\<sigma>. afterEvents 4 ?es = Some \<sigma> \<and> commands \<sigma> = [?m] \<and>
        map phase (commandPipes \<sigma>) = [Errored] \<and> attachInterest (debuggerSubject \<sigma>) = 0"
    by (intro exI[of _ \<sigma>] conjI) simp_all
  obtain \<tau>1 where i1: "step 4 (SendCommand ?m) initial = Some \<tau>1" using step_returns[of 4] by blast
  from T1[rule_format, OF i1]
  have "attachInterest (debuggerSubject \<tau>1) = attachInterest (debuggerSubject initial) + 1"
    and "commands \<tau>1 = commands initial @ [?m]"
    by blast+
  then have "attachInterest (debuggerSubject \<tau>1) = 1" and "commands \<tau>1 = [?m]"
    by (simp_all add: initial_def fresh_def)
  with i1 have B: "\<exists>\<tau>. step 4 (SendCommand ?m) initial = Some \<tau> \<and>
        attachInterest (debuggerSubject \<tau>) = 1 \<and> commands \<tau> = [?m]"
    by (intro exI[of _ \<tau>1] conjI)
  note S = command_interest_is_released[where n = 4 and es = "[]" and \<sigma> = ?\<rho>s
      and m = ?m and i = 0 and k = 0 and j = 0 and r = None, THEN conjunct2, THEN conjunct1]
  obtain \<tau>s where su: "step 4 (Subscribe 0) ?\<rho>s = Some \<tau>s" by simp
  from S[rule_format, OF su] have "attachInterest (debuggerSubject \<tau>s) = 1" by simp
  with su have C: "\<exists>\<tau>. step 4 (Subscribe 0) ?\<rho>s = Some \<tau> \<and> attachInterest (debuggerSubject \<tau>) = 1"
    by (intro exI[of _ \<tau>s] conjI)
  note R = command_interest_is_released[where n = 4 and es = "[]" and \<sigma> = ?\<rho>r
      and m = ?m and i = 0 and k = 0 and j = 0 and r = None,
      THEN conjunct2, THEN conjunct2, THEN conjunct1]
  obtain \<tau>2 where i2: "step 4 (Callback 0 None) ?\<rho>r = Some \<tau>2" using step_returns[of 4] by blast
  have g: "0 < length (pendingCalls ?\<rho>r) \<and> pendingCalls ?\<rho>r ! 0 = CommandCall 0 \<and>
        0 < length (commandPipes ?\<rho>r) \<and> phase (commandPipes ?\<rho>r ! 0) = Running"
    by simp
  from R[rule_format, OF g i2]
  have "attachInterest (debuggerSubject \<tau>2) = attachInterest (debuggerSubject ?\<rho>r) - 1"
    and "phase (commandPipes \<tau>2 ! 0) = (case None :: LastError option of None \<Rightarrow> Completed | Some err \<Rightarrow> Errored)"
    by blast+
  then have "attachInterest (debuggerSubject \<tau>2) = 0" and "phase (commandPipes \<tau>2 ! 0) = Completed"
    by simp_all
  with i2 have D: "\<exists>\<tau>. step 4 (Callback 0 None) ?\<rho>r = Some \<tau> \<and>
        attachInterest (debuggerSubject \<tau>) = 0 \<and> phase (commandPipes \<tau> ! 0) = Completed"
    by (intro exI[of _ \<tau>2] conjI)
  note W = command_interest_is_released[where n = 4 and es = "[]" and \<sigma> = ?\<rho>w
      and m = ?m and i = 0 and k = 0 and j = 0 and r = None,
      THEN conjunct2, THEN conjunct2, THEN conjunct2, THEN conjunct2, THEN conjunct1]
  obtain \<tau>3 where i3: "step 4 (Unsubscribe 0) ?\<rho>w = Some \<tau>3" using step_returns[of 4] by blast
  have gw: "0 < length (commandPipes ?\<rho>w) \<and>
        (phase (commandPipes ?\<rho>w ! 0) = Waiting \<or> phase (commandPipes ?\<rho>w ! 0) = Running)"
    by simp
  from W[rule_format, OF gw i3]
  have "attachInterest (debuggerSubject \<tau>3) = attachInterest (debuggerSubject ?\<rho>w) - 1"
    and "phase (commandPipes \<tau>3 ! 0) = Unsubscribed"
    by blast+
  then have "attachInterest (debuggerSubject \<tau>3) = 0" and "phase (commandPipes \<tau>3 ! 0) = Unsubscribed"
    by simp_all
  with i3 have E: "\<exists>\<tau>. step 4 (Unsubscribe 0) ?\<rho>w = Some \<tau> \<and>
        attachInterest (debuggerSubject \<tau>) = 0 \<and> phase (commandPipes \<tau> ! 0) = Unsubscribed"
    by (intro exI[of _ \<tau>3] conjI)
  note V = command_interest_is_released[where n = 4 and es = "[]" and \<sigma> = ?\<rho>u
      and m = ?m and i = 0 and k = 0 and j = 0 and r = None]
  note V4 = V[THEN conjunct2, THEN conjunct2, THEN conjunct2, THEN conjunct1]
  note V6 = V[THEN conjunct2, THEN conjunct2, THEN conjunct2, THEN conjunct2, THEN conjunct2,
      THEN conjunct1]
  have gu: "0 < length (pendingCalls ?\<rho>u) \<and> pendingCalls ?\<rho>u ! 0 = CommandCall 0 \<and>
      \<not> (0 < length (commandPipes ?\<rho>u) \<and> phase (commandPipes ?\<rho>u ! 0) = Running)"
    by simp
  from V4[rule_format, OF gu]
  have F: "step 4 (Callback 0 None) ?\<rho>u = Some (initial\<lparr>pendingCalls := [],
        commandPipes := [\<lparr>command = ?m, phase = Unsubscribed\<rparr>]\<rparr>)"
    by (simp add: removeAt_def)
  have hu: "\<not> (0 < length (commandPipes ?\<rho>u) \<and>
        (phase (commandPipes ?\<rho>u ! 0) = Waiting \<or> phase (commandPipes ?\<rho>u ! 0) = Running))"
    by simp
  from V6[rule_format, OF hu] have G: "step 4 (Unsubscribe 0) ?\<rho>u = Some ?\<rho>u" .
  from A B C D E F G show ?thesis by (intro conjI)
qed

text \<open>
  The claim that every call of \<open>sendCommand\<close> is matched by exactly one decrement, so
  that no sequence leaves the interest elevated, fails. First run: the observable is
  never subscribed; the increment stays, with nothing in flight that could take it
  back. Second run: the permission is rejected, the observable is subscribed, and its
  pipe waits for an \<open>IS_ACTIVE\<close> with the attachment inactive and no call in flight; the
  increment stays. Third run: the observable is subscribed twice; both pipes make the
  \<open>chrome.debugger.sendCommand\<close> call when the attach call completes, and each decrements
  at its callback: one increment, two decrements, and the interest is \<open>-1\<close>.
\<close>

theorem command_interest_stays_elevated_counterexample:
  "map_option (\<lambda>\<sigma>. (attachInterest (debuggerSubject \<sigma>), attachState (debuggerSubject \<sigma>),
                     map phase (commandPipes \<sigma>), pendingCalls \<sigma>))
     (afterEvents 4 [SendCommand (Protocol ''A'')])
     = Some (1, IS_INACTIVE, [], []) \<and>
   map_option (\<lambda>\<sigma>. (attachInterest (debuggerSubject \<sigma>), attachState (debuggerSubject \<sigma>),
                     map phase (commandPipes \<sigma>), pendingCalls \<sigma>))
     (afterEvents 4 [Reject, SendCommand (Protocol ''A''), Subscribe 0])
     = Some (1, IS_INACTIVE, [Waiting], []) \<and>
   map_option (\<lambda>\<sigma>. (attachInterest (debuggerSubject \<sigma>), attachState (debuggerSubject \<sigma>),
                     map phase (commandPipes \<sigma>), pendingCalls \<sigma>))
     (afterEvents 4 [GrantTemporary, SendCommand (Protocol ''A''), Subscribe 0, Subscribe 0,
        Callback 0 None])
     = Some (1, IS_ACTIVE, [Running, Running], [CommandCall 0, CommandCall 1]) \<and>
   map_option (\<lambda>\<sigma>. (attachInterest (debuggerSubject \<sigma>), attachState (debuggerSubject \<sigma>),
                     map phase (commandPipes \<sigma>), pendingCalls \<sigma>))
     (afterEvents 4 [GrantTemporary, SendCommand (Protocol ''A''), Subscribe 0, Subscribe 0,
        Callback 0 None, Callback 0 None, Callback 0 None])
     = Some (- 1, DEACTIVATING, [Completed, Completed],
         [TransitionCall attachState_subject (deactivateTransition attachState_subject)])"
  by code_simp

end
